theory Spec2Isabelle
  imports Complex_Main "HOL-Library.Word" "HOL-Library.Sublist"
begin

unbundle bit_operations_syntax

section \<open>Strings\<close>

text \<open>
  A Python \<open>str\<close> is modelled as a \<open>string\<close> (a list of \<open>char\<close>), one \<open>char\<close> per
  character: the model covers the texts whose characters have code points below 256, where
  \<open>len\<close> is \<open>length\<close> and \<open>ord\<close> is \<open>of_char\<close>.
\<close>

definition ord :: "char \<Rightarrow> int" where
  "ord c = of_char c"

text \<open>\<open>str.replace(old, new)\<close> for one-character \<open>old\<close> and \<open>new\<close>.\<close>

definition replace_char :: "char \<Rightarrow> char \<Rightarrow> string \<Rightarrow> string" where
  "replace_char old new s = map (\<lambda>c. if c = old then new else c) s"

text \<open>The decimal digits of a natural number, and \<open>str(i)\<close> of a Python integer
  as an f-string prints it.\<close>

definition digit_char :: "nat \<Rightarrow> char" where
  "digit_char d = ''0123456789'' ! d"

fun str_of_nat :: "nat \<Rightarrow> string" where
  "str_of_nat n =
     (if n < 10 then [digit_char n]
      else str_of_nat (n div 10) @ [digit_char (n mod 10)])"

declare str_of_nat.simps [simp del]

definition str_of_int :: "int \<Rightarrow> string" where
  "str_of_int i = (if i < 0 then CHR ''-'' # str_of_nat (nat (- i)) else str_of_nat (nat i))"

section \<open>utils/hashing.py\<close>

text \<open>
  \<open>string_to_numeric_id\<close>: the loop over the characters of \<open>s\<close>, on Python's unbounded
  integers: \<open>hash_val = ((hash_val << 5) - hash_val) + ord(char)\<close>, then
  \<open>hash_val = hash_val & 0xFFFFFFFF\<close>; the result is \<open>abs(hash_val)\<close>.
\<close>

definition hash_step :: "int \<Rightarrow> char \<Rightarrow> int" where
  "hash_step hash_val c = ((push_bit 5 hash_val - hash_val) + ord c) AND 0xFFFFFFFF"

definition string_to_numeric_id :: "string \<Rightarrow> int" where
  "string_to_numeric_id s = \<bar>foldl hash_step 0 s\<bar>"

text \<open>
  \<open>generate_chunk_id\<close>: the citation with space, slash and full stop replaced by a hyphen,
  in the format \<open>{source_type}-{sanitized_citation}-chunk-{chunk_index}\<close>.
\<close>

definition sanitize_citation :: "string \<Rightarrow> string" where
  "sanitize_citation citation =
     replace_char CHR ''.'' CHR ''-''
       (replace_char CHR ''/'' CHR ''-'' (replace_char CHR '' '' CHR ''-'' citation))"

definition generate_chunk_id :: "string \<Rightarrow> string \<Rightarrow> int \<Rightarrow> string" where
  "generate_chunk_id source_type citation chunk_index =
     source_type @ ''-'' @ sanitize_citation citation @ ''-chunk-'' @ str_of_int chunk_index"

definition generate_numeric_chunk_id :: "string \<Rightarrow> string \<Rightarrow> int \<Rightarrow> int" where
  "generate_numeric_chunk_id source_type citation chunk_index =
     string_to_numeric_id (generate_chunk_id source_type citation chunk_index)"

text \<open>
  The numeric id as the specification words it: a 32-bit accumulator starting at 0, each
  character taking it to \<open>accumulator * 31 + code\<close> in 32-bit arithmetic; the final value
  read as a signed two's-complement integer, and its absolute value returned.
\<close>

definition spec_numeric_id :: "string \<Rightarrow> int" where
  "spec_numeric_id s =
     \<bar>sint (foldl (\<lambda>(acc :: 32 word) c. acc * 31 + of_char c) 0 s)\<bar>"

section \<open>models/chunks.py\<close>

text \<open>
  The \<open>metadata\<close> dictionary a caller hands to the chunker holds the fields of
  \<open>ChunkMetadata\<close> other than \<open>chunk_index\<close> and \<open>total_chunks\<close>, which the chunker
  supplies; \<open>source_type\<close> and \<open>citation\<close> are required by \<open>ChunkMetadata\<close>. It is
  modelled as a record of that shape, so the validation done by the model class is outside
  the model. The fields \<open>text\<close> and \<open>section\<close> are written \<open>chunk_text\<close> and
  \<open>section_number\<close>.
\<close>

record doc_metadata =
  md_source_type :: string
  md_citation :: string
  md_title :: "string option"
  md_section :: "string option"
  md_url :: "string option"
  md_version_date :: "string option"
  md_extra_fields :: "(string \<times> string) list"

record chunk_metadata =
  source_type :: string
  citation :: string
  chunk_index :: nat
  total_chunks :: nat
  title :: "string option"
  section_number :: "string option"
  url :: "string option"
  version_date :: "string option"
  extra_fields :: "(string \<times> string) list"

record chunk =
  chunk_text :: string
  metadata :: chunk_metadata
  string_id :: string

record embedded_chunk =
  chunk :: chunk
  embedding :: "real list"
  numeric_id :: int
  tokens :: nat

record ingestion_batch =
  embedded_chunks :: "embedded_chunk list"
  total_tokens :: nat
  batch_size :: nat

text \<open>\<open>ChunkMetadata(**metadata, chunk_index=idx, total_chunks=total)\<close>.\<close>

definition make_chunk_metadata :: "doc_metadata \<Rightarrow> nat \<Rightarrow> nat \<Rightarrow> chunk_metadata" where
  "make_chunk_metadata md idx n_total =
     \<lparr>source_type = md_source_type md, citation = md_citation md,
      chunk_index = idx, total_chunks = n_total,
      title = md_title md, section_number = md_section md, url = md_url md,
      version_date = md_version_date md, extra_fields = md_extra_fields md\<rparr>"

text \<open>The exceptions the modelled code raises or lets through.\<close>

datatype error = IndexError | ValueError | RateLimitError | APIError | OtherException

section \<open>processors/chunker.py\<close>

subsection \<open>String operations of the chunker\<close>

definition newline :: char where
  "newline = CHR 0x0A"

definition space :: char where
  "space = CHR '' ''"

text \<open>\<open>str.isspace\<close> on the characters below 256, which \<open>str.strip()\<close> removes.\<close>

definition is_space :: "char \<Rightarrow> bool" where
  "is_space c = ((of_char c :: nat) \<in> {9, 10, 11, 12, 13, 28, 29, 30, 31, 32, 133, 160})"

definition strip :: "string \<Rightarrow> string" where
  "strip s = rev (dropWhile is_space (rev (dropWhile is_space s)))"

text \<open>\<open>re.sub(r"\n\n+", "\n\n", text)\<close>: every maximal run of two or more newlines
  becomes two newlines.\<close>

function sub_newlines :: "string \<Rightarrow> string" where
  "sub_newlines [] = []"
| "sub_newlines (c # cs) =
     (if c = newline \<and> cs \<noteq> [] \<and> hd cs = newline
      then newline # newline # sub_newlines (dropWhile (\<lambda>x. x = newline) cs)
      else c # sub_newlines cs)"
  by pat_completeness auto
termination
  by (relation "measure length") (auto intro: le_imp_less_Suc length_dropWhile_le)

text \<open>\<open>re.sub(r" +", " ", text)\<close>: every maximal run of spaces becomes one space.\<close>

function sub_spaces :: "string \<Rightarrow> string" where
  "sub_spaces [] = []"
| "sub_spaces (c # cs) =
     (if c = space then space # sub_spaces (dropWhile (\<lambda>x. x = space) cs)
      else c # sub_spaces cs)"
  by pat_completeness auto
termination
  by (relation "measure length") (auto intro: le_imp_less_Suc length_dropWhile_le)

text \<open>\<open>text.split("\n\n")\<close>, scanning from the left; the first argument is the piece read
  so far.\<close>

fun split_paragraphs :: "string \<Rightarrow> string \<Rightarrow> string list" where
  "split_paragraphs cur (a # b # cs) =
     (if a = newline \<and> b = newline then cur # split_paragraphs [] cs
      else split_paragraphs (cur @ [a]) (b # cs))"
| "split_paragraphs cur [a] = [cur @ [a]]"
| "split_paragraphs cur [] = [cur]"

text \<open>\<open>s[-n:]\<close>: the last \<open>n\<close> characters, all of \<open>s\<close> when it is shorter, and all of
  \<open>s\<close> when \<open>n = 0\<close> (the slice \<open>s[-0:]\<close> is \<open>s[0:]\<close>).\<close>

definition py_suffix :: "nat \<Rightarrow> string \<Rightarrow> string" where
  "py_suffix n s = (if n = 0 then s else drop (length s - n) s)"

text \<open>\<open>s.rfind(c)\<close>: the highest index holding \<open>c\<close>, or \<open>-1\<close>.\<close>

primrec rfind_from :: "char \<Rightarrow> string \<Rightarrow> int \<Rightarrow> int \<Rightarrow> int" where
  "rfind_from c [] i best = best"
| "rfind_from c (x # xs) i best = rfind_from c xs (i + 1) (if x = c then i else best)"

definition rfind :: "char \<Rightarrow> string \<Rightarrow> int" where
  "rfind c s = rfind_from c s 0 (- 1)"

text \<open>\<open>re.findall(r"[^.!?]*[.!?]+", text)\<close>: each match is a longest run of characters
  other than the three marks followed by a longest run of the marks; text after the last
  mark matches nothing.\<close>

definition is_end_mark :: "char \<Rightarrow> bool" where
  "is_end_mark c = (c = CHR ''.'' \<or> c = CHR ''!'' \<or> c = CHR ''?'')"

function findall_sentences :: "string \<Rightarrow> string list" where
  "findall_sentences s =
     (let body = takeWhile (\<lambda>c. \<not> is_end_mark c) s;
          rest = dropWhile (\<lambda>c. \<not> is_end_mark c) s
      in if rest = [] then []
         else (body @ takeWhile is_end_mark rest) # findall_sentences (dropWhile is_end_mark rest))"
  by pat_completeness auto
termination
proof (relation "measure length", goal_cases)
  case 1
  show ?case by simp
next
  case (2 s body rest)
  have shorter: "length (dropWhile P xs) < length xs" if "xs \<noteq> []" "P (hd xs)"
    for P and xs :: string
    using that by (cases xs) (simp_all add: length_dropWhile_le le_imp_less_Suc)
  have "rest \<noteq> []" "is_end_mark (hd rest)"
    using 2 hd_dropWhile [of "\<lambda>c. \<not> is_end_mark c" s] by simp_all
  then have "length (dropWhile is_end_mark rest) < length rest"
    by (rule shorter)
  moreover have "length rest \<le> length s"
    using 2 by (simp add: length_dropWhile_le)
  ultimately show ?case
    by simp
qed

declare findall_sentences.simps [simp del]

subsection \<open>TextChunker\<close>

text \<open>\<open>_clean_text\<close>.\<close>

definition clean_text :: "string \<Rightarrow> string" where
  "clean_text t = strip (sub_spaces (sub_newlines t))"

text \<open>\<open>_get_overlap_at_word_boundary\<close>, for a chunker whose \<open>overlap_size\<close> is \<open>os\<close>.\<close>

definition get_overlap_at_word_boundary :: "nat \<Rightarrow> string \<Rightarrow> string" where
  "get_overlap_at_word_boundary os t =
     (if length t \<le> os then t
      else let overlap = py_suffix os t;
               last_space = rfind space overlap
           in if last_space > 0 then take (nat last_space) overlap else overlap)"

text \<open>The two statements that seed the next buffer after a flush:
  \<open>overlap_text = current_chunk[-self.overlap_size:]\<close> and
  \<open>overlap_text = self._get_overlap_at_word_boundary(overlap_text)\<close>.\<close>

definition overlap_seed :: "nat \<Rightarrow> string \<Rightarrow> string" where
  "overlap_seed os current_chunk = get_overlap_at_word_boundary os (py_suffix os current_chunk)"

text \<open>
  \<open>_split_by_sentences\<close>. The sentence tokenizer of NLTK is a parameter: \<open>None\<close> when the
  import failed (\<open>sent_tokenize = None\<close>), otherwise a function that gives the sentences or
  \<open>None\<close> when it raises, in which case the source falls back to the regular expression.
\<close>

type_synonym sent_tokenizer = "(string \<Rightarrow> string list option) option"

definition group_sentence :: "nat \<Rightarrow> string \<Rightarrow> string list \<times> string \<Rightarrow> string list \<times> string" where
  "group_sentence max_chunk_size sent st =
     (case st of (chunks, current) \<Rightarrow>
        if length current + length sent \<le> max_chunk_size
        then (chunks, if current \<noteq> [] then current @ '' '' @ sent else sent)
        else (if current \<noteq> [] then chunks @ [current] else chunks, sent))"

definition group_sentences :: "nat \<Rightarrow> string list \<Rightarrow> string list" where
  "group_sentences max_chunk_size sentences =
     (case fold (group_sentence max_chunk_size) sentences ([], []) of
        (chunks, current) \<Rightarrow> if current \<noteq> [] then chunks @ [current] else chunks)"

definition group_match :: "nat \<Rightarrow> string \<Rightarrow> string list \<times> string \<Rightarrow> string list \<times> string" where
  "group_match max_chunk_size m st =
     (case st of (chunks, current) \<Rightarrow>
        if length current + length m \<le> max_chunk_size
        then (chunks, current @ m)
        else (if current \<noteq> [] then chunks @ [strip current] else chunks, m))"

definition group_matches :: "nat \<Rightarrow> string list \<Rightarrow> string list" where
  "group_matches max_chunk_size matches =
     (case fold (group_match max_chunk_size) matches ([], []) of
        (chunks, current) \<Rightarrow> if current \<noteq> [] then chunks @ [strip current] else chunks)"

definition split_by_regex :: "nat \<Rightarrow> string \<Rightarrow> string list" where
  "split_by_regex max_chunk_size t =
     (let matches = findall_sentences t
      in if matches = [] then [t]
         else let chunks = group_matches max_chunk_size matches
              in if chunks = [] then [t] else chunks)"

definition split_by_sentences :: "nat \<Rightarrow> sent_tokenizer \<Rightarrow> string \<Rightarrow> string list" where
  "split_by_sentences max_chunk_size sent_tokenize t =
     (case sent_tokenize of
        None \<Rightarrow> split_by_regex max_chunk_size t
      | Some tokenize \<Rightarrow>
          (case tokenize t of
             None \<Rightarrow> split_by_regex max_chunk_size t
           | Some sentences \<Rightarrow> group_sentences max_chunk_size sentences))"

text \<open>
  \<open>_split_into_chunks\<close>. The loop over \<open>para_chunks[1:-1]\<close> carries \<open>chunks\<close>,
  \<open>overlap_text\<close> and \<open>current_chunk\<close>.
\<close>

definition middle_chunk ::
  "nat \<Rightarrow> nat \<Rightarrow> string \<Rightarrow> string list \<times> string \<times> string \<Rightarrow> string list \<times> string \<times> string" where
  "middle_chunk max_chunk_size os para_chunk st =
     (case st of (chunks, overlap_text, current_chunk) \<Rightarrow>
        let overlap = overlap_text @ para_chunk
        in if length overlap > max_chunk_size
           then (chunks @ [overlap], overlap_seed os para_chunk, current_chunk)
           else (chunks, overlap_text, overlap))"

text \<open>The body of the loop over the paragraphs, on the state \<open>(chunks, current_chunk)\<close>.
  \<open>para_chunks[0]\<close> raises \<open>IndexError\<close> when the sentence split gave no piece.\<close>

definition paragraph_step ::
  "nat \<Rightarrow> nat \<Rightarrow> sent_tokenizer \<Rightarrow> string \<Rightarrow> string list \<times> string
     \<Rightarrow> error + string list \<times> string" where
  "paragraph_step max_chunk_size os sent_tokenize paragraph0 st =
     (case st of (chunks, current_chunk) \<Rightarrow>
        let paragraph = strip paragraph0
        in if paragraph = [] then Inr (chunks, current_chunk)
           else if length current_chunk + length paragraph + 2 \<le> max_chunk_size
           then Inr (chunks,
                  (if current_chunk \<noteq> [] then current_chunk @ [newline, newline]
                   else current_chunk) @ paragraph)
           else if current_chunk \<noteq> []
           then
             let chunks1 = chunks @ [current_chunk];
                 overlap_text = overlap_seed os current_chunk
             in if length paragraph > max_chunk_size
                then
                  let para_chunks = split_by_sentences max_chunk_size sent_tokenize paragraph
                  in if para_chunks = [] then Inl IndexError
                     else
                       let first_chunk = overlap_text @ hd para_chunks;
                           chunks2 = chunks1 @ [first_chunk]
                       in (case fold (middle_chunk max_chunk_size os) (butlast (tl para_chunks))
                                  (chunks2, overlap_text, first_chunk) of
                             (chunks3, overlap_text3, current3) \<Rightarrow>
                               Inr (chunks3,
                                    if length para_chunks > 1
                                    then overlap_text3 @ last para_chunks
                                    else last para_chunks))
                else Inr (chunks1, overlap_text @ paragraph)
           else Inr (chunks, current_chunk))"

fun paragraph_loop ::
  "nat \<Rightarrow> nat \<Rightarrow> sent_tokenizer \<Rightarrow> string list \<Rightarrow> string list \<times> string
     \<Rightarrow> error + string list \<times> string" where
  "paragraph_loop max_chunk_size os sent_tokenize [] st = Inr st"
| "paragraph_loop max_chunk_size os sent_tokenize (p # ps) st =
     (case paragraph_step max_chunk_size os sent_tokenize p st of
        Inl e \<Rightarrow> Inl e
      | Inr st' \<Rightarrow> paragraph_loop max_chunk_size os sent_tokenize ps st')"

text \<open>The conversion of the chunk texts to \<open>Chunk\<close> objects: \<open>total_chunks\<close> is the
  number of texts, and a text that is empty after \<open>strip()\<close> is skipped.\<close>

definition make_chunk :: "doc_metadata \<Rightarrow> nat \<Rightarrow> nat \<times> string \<Rightarrow> chunk list" where
  "make_chunk md n_total p =
     (case p of (idx, t) \<Rightarrow>
        let t' = strip t
        in if t' = [] then []
           else [\<lparr>chunk_text = t',
                  metadata = make_chunk_metadata md idx n_total,
                  string_id = generate_chunk_id (md_source_type md) (md_citation md) (int idx)\<rparr>])"

definition make_chunk_objects :: "doc_metadata \<Rightarrow> string list \<Rightarrow> chunk list" where
  "make_chunk_objects md chunks =
     concat (map (make_chunk md (length chunks)) (enumerate 0 chunks))"

definition split_into_chunks ::
  "nat \<Rightarrow> nat \<Rightarrow> sent_tokenizer \<Rightarrow> string \<Rightarrow> doc_metadata \<Rightarrow> error + chunk list" where
  "split_into_chunks max_chunk_size os sent_tokenize t md =
     (case paragraph_loop max_chunk_size os sent_tokenize (split_paragraphs [] t) ([], []) of
        Inl e \<Rightarrow> Inl e
      | Inr (chunks, current_chunk) \<Rightarrow>
          Inr (make_chunk_objects md
                 (if current_chunk \<noteq> [] then chunks @ [current_chunk] else chunks)))"

text \<open>\<open>chunk_document\<close>, for a chunker with the given \<open>max_chunk_size\<close> and
  \<open>overlap_size\<close>.\<close>

definition chunk_document ::
  "nat \<Rightarrow> nat \<Rightarrow> sent_tokenizer \<Rightarrow> string \<Rightarrow> doc_metadata \<Rightarrow> error + chunk list" where
  "chunk_document max_chunk_size os sent_tokenize text0 md =
     (let t = clean_text text0
      in if t = [] then Inr []
         else if length t \<le> max_chunk_size
         then Inr [\<lparr>chunk_text = t,
                    metadata = make_chunk_metadata md 0 1,
                    string_id = generate_chunk_id (md_source_type md) (md_citation md) 0\<rparr>]
         else split_into_chunks max_chunk_size os sent_tokenize t md)"

section \<open>processors/embeddings.py\<close>

text \<open>
  \<open>count_tokens\<close>. The tiktoken encoding is a parameter: \<open>None\<close> when it could not be
  loaded (\<open>encoding = None\<close>), otherwise a function giving the number of tokens of a
  text, or \<open>None\<close> when encoding raises; the fallback is \<open>max(1, len(text) // 3)\<close>.
\<close>

type_synonym token_encoding = "(string \<Rightarrow> nat option) option"

definition count_tokens :: "token_encoding \<Rightarrow> string \<Rightarrow> nat" where
  "count_tokens encoding t =
     (case encoding of
        None \<Rightarrow> max 1 (length t div 3)
      | Some encode \<Rightarrow>
          (case encode t of None \<Rightarrow> max 1 (length t div 3) | Some n \<Rightarrow> n))"

text \<open>\<open>_create_embedded_chunk_batch\<close>.\<close>

definition create_embedded_chunk_batch :: "token_encoding \<Rightarrow> chunk list \<Rightarrow> ingestion_batch" where
  "create_embedded_chunk_batch encoding chunks =
     \<lparr>embedded_chunks =
        map (\<lambda>c. \<lparr>chunk = c, embedding = [], numeric_id = 0,
                   tokens = count_tokens encoding (chunk_text c)\<rparr>) chunks,
      total_tokens = sum_list (map (\<lambda>c. count_tokens encoding (chunk_text c)) chunks),
      batch_size = length chunks\<rparr>"

text \<open>
  \<open>_create_batches\<close>, for a service with the given \<open>batch_size\<close> and
  \<open>max_tokens_per_batch\<close>. The loop carries \<open>batches\<close>, \<open>current_batch_chunks\<close> and
  \<open>current_tokens\<close>. A chunk of more than 3000 tokens has its text cut to 9000
  characters (the source assigns to \<open>chunk.text\<close>; the model puts the cut chunk in the
  batch).
\<close>

definition truncate_chunk :: "token_encoding \<Rightarrow> chunk \<Rightarrow> chunk" where
  "truncate_chunk encoding c =
     (if count_tokens encoding (chunk_text c) > 3000
      then c\<lparr>chunk_text := take 9000 (chunk_text c)\<rparr> else c)"

definition batch_step ::
  "token_encoding \<Rightarrow> nat \<Rightarrow> nat \<Rightarrow> chunk
     \<Rightarrow> ingestion_batch list \<times> chunk list \<times> nat \<Rightarrow> ingestion_batch list \<times> chunk list \<times> nat" where
  "batch_step encoding bsize max_tokens_per_batch c0 st =
     (case st of (batches, current_batch_chunks, current_tokens) \<Rightarrow>
        let c = truncate_chunk encoding c0;
            chunk_tokens = count_tokens encoding (chunk_text c)
        in if (length current_batch_chunks \<ge> bsize
               \<or> current_tokens + chunk_tokens > max_tokens_per_batch)
              \<and> current_batch_chunks \<noteq> []
           then (batches @ [create_embedded_chunk_batch encoding current_batch_chunks],
                 [c], chunk_tokens)
           else (batches, current_batch_chunks @ [c], current_tokens + chunk_tokens))"

definition create_batches ::
  "token_encoding \<Rightarrow> nat \<Rightarrow> nat \<Rightarrow> chunk list \<Rightarrow> ingestion_batch list" where
  "create_batches encoding bsize max_tokens_per_batch chunks =
     (case fold (batch_step encoding bsize max_tokens_per_batch) chunks ([], [], 0) of
        (batches, current_batch_chunks, current_tokens) \<Rightarrow>
          if current_batch_chunks \<noteq> []
          then batches @ [create_embedded_chunk_batch encoding current_batch_chunks]
          else batches)"

text \<open>
  The embedding provider and the clock are the outside world. A request either returns the
  vectors of \<open>response.data\<close> or raises. The provider is a function of the number of
  requests made before and of the texts sent; the state of a run counts the requests and
  records, in order, every request and every sleep (in milliseconds).
\<close>

datatype api_response = Response "real list list" | Raise error

type_synonym provider = "nat \<Rightarrow> string list \<Rightarrow> api_response"

datatype event = ApiCall "string list" | Sleep int

record io_state =
  calls :: nat
  trace :: "event list"

definition call_api :: "provider \<Rightarrow> string list \<Rightarrow> io_state \<Rightarrow> api_response \<times> io_state" where
  "call_api client texts st =
     (client (calls st) texts, \<lparr>calls = calls st + 1, trace = trace st @ [ApiCall texts]\<rparr>)"

definition sleep :: "int \<Rightarrow> io_state \<Rightarrow> io_state" where
  "sleep ms st = st\<lparr>trace := trace st @ [Sleep ms]\<rparr>"

definition embedding_dimension :: nat where
  "embedding_dimension = 1536"

text \<open>The loop of \<open>_embed_batch\<close> that maps the vectors back to the chunks, from index
  \<open>idx\<close> on: \<open>response.data[idx]\<close> raises \<open>IndexError\<close> past the end of the data, and a
  vector of another length than the dimension raises \<open>ValueError\<close>.\<close>

fun map_embeddings ::
  "real list list \<Rightarrow> nat \<Rightarrow> embedded_chunk list \<Rightarrow> error + embedded_chunk list" where
  "map_embeddings data idx [] = Inr []"
| "map_embeddings data idx (chunk_obj # rest) =
     (if idx \<ge> length data then Inl IndexError
      else if length (data ! idx) \<noteq> embedding_dimension then Inl ValueError
      else (case map_embeddings data (idx + 1) rest of
              Inl e \<Rightarrow> Inl e
            | Inr embedded \<Rightarrow>
                Inr (\<lparr>chunk = chunk chunk_obj, embedding = data ! idx,
                      numeric_id = string_to_numeric_id (string_id (chunk chunk_obj)),
                      tokens = tokens chunk_obj\<rparr> # embedded)))"

text \<open>\<open>_embed_batch\<close>: an exception of the request is logged and raised again.\<close>

definition batch_texts :: "ingestion_batch \<Rightarrow> string list" where
  "batch_texts batch = map (\<lambda>c. chunk_text (chunk c)) (embedded_chunks batch)"

definition embed_batch ::
  "provider \<Rightarrow> ingestion_batch \<Rightarrow> io_state \<Rightarrow> (error + embedded_chunk list) \<times> io_state" where
  "embed_batch client batch st =
     (case call_api client (batch_texts batch) st of
        (Raise e, st') \<Rightarrow> (Inl e, st')
      | (Response data, st') \<Rightarrow> (map_embeddings data 0 (embedded_chunks batch), st'))"

text \<open>The \<open>try\<close> statement of \<open>generate_embeddings\<close> for one batch: on
  \<open>RateLimitError\<close> it sleeps 5 seconds and embeds the batch again, outside any handler.\<close>

definition embed_with_retry ::
  "provider \<Rightarrow> ingestion_batch \<Rightarrow> io_state \<Rightarrow> (error + embedded_chunk list) \<times> io_state" where
  "embed_with_retry client batch st =
     (case embed_batch client batch st of
        (Inl RateLimitError, st') \<Rightarrow> embed_batch client batch (sleep 5000 st')
      | r \<Rightarrow> r)"

text \<open>The loop of \<open>generate_embeddings\<close> over \<open>enumerate(batches)\<close>: \<open>n\<close> is
  \<open>len(batches)\<close>, \<open>batch_idx\<close> the index of the first batch left, and
  \<open>embedded\<close> the list \<open>embedded_chunks\<close> so far. The running totals of tokens and cost
  are only logged and are left out.\<close>

fun embed_loop ::
  "provider \<Rightarrow> int \<Rightarrow> nat \<Rightarrow> nat \<Rightarrow> ingestion_batch list \<Rightarrow> embedded_chunk list \<Rightarrow> io_state
     \<Rightarrow> (error + embedded_chunk list) \<times> io_state" where
  "embed_loop client batch_delay_ms n batch_idx [] embedded st = (Inr embedded, st)"
| "embed_loop client batch_delay_ms n batch_idx (batch # rest) embedded st =
     (case embed_with_retry client batch st of
        (Inl e, st') \<Rightarrow> (Inl e, st')
      | (Inr batch_embedded, st') \<Rightarrow>
          embed_loop client batch_delay_ms n (batch_idx + 1) rest (embedded @ batch_embedded)
            (if int batch_idx < int n - 1 then sleep batch_delay_ms st' else st'))"

definition generate_embeddings ::
  "token_encoding \<Rightarrow> nat \<Rightarrow> nat \<Rightarrow> provider \<Rightarrow> chunk list \<Rightarrow> int \<Rightarrow> io_state
     \<Rightarrow> (error + embedded_chunk list) \<times> io_state" where
  "generate_embeddings encoding bsize max_tokens_per_batch client chunks batch_delay_ms st =
     (if chunks = [] then (Inr [], st)
      else let batches = create_batches encoding bsize max_tokens_per_batch chunks
           in embed_loop client batch_delay_ms (length batches) 0 batches [] st)"

section \<open>Notions used in the statements\<close>

text \<open>The chunks of a batch; a batch within the limits of the service, or made of one chunk
  whose own token count is above the token budget; a batch that is not empty and records its
  size and the sum of its token counts.\<close>

definition batch_chunks :: "ingestion_batch \<Rightarrow> chunk list" where
  "batch_chunks b = map chunk (embedded_chunks b)"

definition within_limits :: "nat \<Rightarrow> nat \<Rightarrow> ingestion_batch \<Rightarrow> bool" where
  "within_limits bsize max_tokens_per_batch b =
     ((length (embedded_chunks b) \<le> bsize \<and> total_tokens b \<le> max_tokens_per_batch)
      \<or> (\<exists>ec. embedded_chunks b = [ec] \<and> max_tokens_per_batch < tokens ec))"

definition consistent_batch :: "ingestion_batch \<Rightarrow> bool" where
  "consistent_batch b =
     (embedded_chunks b \<noteq> []
      \<and> batch_size b = length (embedded_chunks b)
      \<and> total_tokens b = sum_list (map tokens (embedded_chunks b)))"

text \<open>A text that \<open>strip()\<close> does not empty; a sentence tokenizer none of whose sentences is
  blank (the regular expression of the fallback has this property by itself).\<close>

definition nonblank :: "string \<Rightarrow> bool" where
  "nonblank s = (strip s \<noteq> [])"

definition sentences_not_blank :: "sent_tokenizer \<Rightarrow> bool" where
  "sentences_not_blank sent_tokenize =
     (case sent_tokenize of
        None \<Rightarrow> True
      | Some tokenize \<Rightarrow> \<forall>t ss. tokenize t = Some ss \<longrightarrow> list_all nonblank ss)"

section \<open>Properties of the identifiers\<close>

lemma mask_32_int: "(4294967295 :: int) = mask 32"
  by (simp add: mask_eq_exp_minus_1)

lemma uint_of_char: "uint (of_char c :: 32 word) = of_char c"
proof -
  have lt: "(of_char c :: nat) < 2 ^ 32"
    using nat_of_char_less_256 [of c] by (rule less_trans) simp
  have "uint (word_of_nat (of_char c) :: 32 word) = int (of_char c)"
    using lt by (simp add: unsigned_of_nat take_bit_nat_eq_self)
  then show ?thesis by (simp add: of_nat_of_char)
qed

lemma hash_step_word: "hash_step (uint (w :: 32 word)) c = uint (w * 31 + of_char c)"
proof -
  have "hash_step (uint w) c = take_bit 32 (uint w * 31 + of_char c)"
    unfolding hash_step_def ord_def mask_32_int
    by (simp add: push_bit_eq_mult take_bit_eq_mask mult.commute)
  also have "\<dots> = (uint w * 31 + uint (of_char c :: 32 word)) mod 2 ^ 32"
    by (simp add: take_bit_eq_mod uint_of_char)
  also have "\<dots> = uint (w * 31 + of_char c)"
    by (simp add: uint_word_ariths mod_simps)
  finally show ?thesis .
qed

lemma foldl_hash_step_word:
  "foldl hash_step (uint (w :: 32 word)) s = uint (foldl (\<lambda>acc c. acc * 31 + of_char c) w s)"
  by (induction s arbitrary: w) (simp_all add: hash_step_word)

text \<open>The source computes the unsigned reading of the 32-bit accumulator, a value from 0
  to \<open>2 ^ 32 - 1\<close>.\<close>

lemma string_to_numeric_id_uint:
  "string_to_numeric_id s = uint (foldl (\<lambda>(acc :: 32 word) c. acc * 31 + of_char c) 0 s)"
  using foldl_hash_step_word [of 0 s] by (simp add: string_to_numeric_id_def)

lemma string_to_numeric_id_range:
  "0 \<le> string_to_numeric_id s \<and> string_to_numeric_id s < 2 ^ 32"
  unfolding string_to_numeric_id_uint
  using uint_bounded [of "foldl (\<lambda>(acc :: 32 word) c. acc * 31 + of_char c) 0 s"] by simp

text \<open>
  C1. The claim is that \<open>string_to_numeric_id\<close> reads the final 32-bit value as a signed
  two's-complement integer before taking the absolute value. The source masks with
  \<open>0xFFFFFFFF\<close>, which leaves an unsigned value, so \<open>abs\<close> changes nothing: on the id
  \<open>usc-1-chunk-0\<close> (source type \<open>usc\<close>, citation \<open>1\<close>, chunk 0) the source returns
  3437013228, and the algorithm of the claim returns 857954068.
\<close>

theorem string_to_numeric_id_not_signed:
  "generate_chunk_id ''usc'' ''1'' 0 = ''usc-1-chunk-0''
   \<and> string_to_numeric_id ''usc-1-chunk-0'' = 3437013228
   \<and> spec_numeric_id ''usc-1-chunk-0'' = 857954068"
proof -
  have "generate_chunk_id ''usc'' ''1'' 0 = ''usc-1-chunk-0''"
    by (simp add: generate_chunk_id_def sanitize_citation_def replace_char_def str_of_int_def
        str_of_nat.simps digit_char_def)
  moreover have "string_to_numeric_id ''usc-1-chunk-0'' = 3437013228"
    by (simp add: string_to_numeric_id_def hash_step_def ord_def)
  moreover have "spec_numeric_id ''usc-1-chunk-0'' = 857954068"
    by (simp add: spec_numeric_id_def)
  ultimately show ?thesis by simp
qed

text \<open>Exchanging one of the characters space, slash, full stop and hyphen for another
  leaves the sanitized citation as it was.\<close>

lemma sanitize_citation_mark:
  assumes "a \<in> {CHR '' '', CHR ''/'', CHR ''.'', CHR ''-''}"
    and "b \<in> {CHR '' '', CHR ''/'', CHR ''.'', CHR ''-''}"
  shows "sanitize_citation (xs @ a # ys) = sanitize_citation (xs @ b # ys)"
  using assms by (auto simp: sanitize_citation_def replace_char_def)

text \<open>
  C10. \<open>generate_chunk_id\<close> is not injective in the citation: for one source type and one
  chunk index, two citations that are equal after the replacement of space, slash and full
  stop by a hyphen (such as citations that differ at one position, holding any two of space,
  slash, full stop and hyphen) give the same string id, and so the same numeric id from
  \<open>generate_numeric_chunk_id\<close>.
\<close>

theorem generate_chunk_id_collision:
  "(sanitize_citation c1 = sanitize_citation c2 \<longrightarrow>
      generate_chunk_id st c1 i = generate_chunk_id st c2 i
      \<and> generate_numeric_chunk_id st c1 i = generate_numeric_chunk_id st c2 i)
   \<and> (a \<in> {CHR '' '', CHR ''/'', CHR ''.'', CHR ''-''}
        \<and> b \<in> {CHR '' '', CHR ''/'', CHR ''.'', CHR ''-''} \<longrightarrow>
      generate_chunk_id st (xs @ a # ys) i = generate_chunk_id st (xs @ b # ys) i
      \<and> generate_numeric_chunk_id st (xs @ a # ys) i
          = generate_numeric_chunk_id st (xs @ b # ys) i)
   \<and> \<not> inj (\<lambda>c. generate_chunk_id st c i)
   \<and> \<not> inj (\<lambda>c. generate_numeric_chunk_id st c i)"
proof -
  have eq: "generate_chunk_id st c i = generate_chunk_id st c' i
      \<and> generate_numeric_chunk_id st c i = generate_numeric_chunk_id st c' i"
    if "sanitize_citation c = sanitize_citation c'" for c c'
    using that by (simp add: generate_numeric_chunk_id_def generate_chunk_id_def)
  have same: "sanitize_citation ''1.2'' = sanitize_citation ''1 2''"
    by (simp add: sanitize_citation_def replace_char_def)
  have "\<not> inj (\<lambda>c. generate_chunk_id st c i)"
  proof
    assume "inj (\<lambda>c. generate_chunk_id st c i)"
    then have "''1.2'' = ''1 2''"
      using eq [OF same] by (auto dest: injD)
    then show False by simp
  qed
  moreover have "\<not> inj (\<lambda>c. generate_numeric_chunk_id st c i)"
  proof
    assume "inj (\<lambda>c. generate_numeric_chunk_id st c i)"
    then have "''1.2'' = ''1 2''"
      using eq [OF same] by (auto dest: injD)
    then show False by simp
  qed
  ultimately show ?thesis
    using eq sanitize_citation_mark by blast
qed

theorem generate_chunk_id_collision_witness:
  "sanitize_citation ''26 U.S.C. 195'' = sanitize_citation ''26-U/S C-.195''
   \<and> ''26 U.S.C. 195'' \<noteq> ''26-U/S C-.195''
   \<and> generate_chunk_id ''usc'' ''26 U.S.C. 195'' 0 = generate_chunk_id ''usc'' ''26-U/S C-.195'' 0
   \<and> generate_numeric_chunk_id ''usc'' ''26 U.S.C. 195'' 0
       = generate_numeric_chunk_id ''usc'' ''26-U/S C-.195'' 0
   \<and> CHR ''.'' \<in> {CHR '' '', CHR ''/'', CHR ''.'', CHR ''-''}
   \<and> CHR ''/'' \<in> {CHR '' '', CHR ''/'', CHR ''.'', CHR ''-''}
   \<and> generate_chunk_id ''cfr'' (''1'' @ CHR ''.'' # ''195'') 3
       = generate_chunk_id ''cfr'' (''1'' @ CHR ''/'' # ''195'') 3"
proof -
  have h: "sanitize_citation ''26 U.S.C. 195'' = sanitize_citation ''26-U/S C-.195''"
    by (simp add: sanitize_citation_def replace_char_def)
  have m: "CHR ''.'' \<in> {CHR '' '', CHR ''/'', CHR ''.'', CHR ''-''}"
    "CHR ''/'' \<in> {CHR '' '', CHR ''/'', CHR ''.'', CHR ''-''}"
    by simp_all
  show ?thesis
    using h m
      generate_chunk_id_collision [of "''26 U.S.C. 195''" "''26-U/S C-.195''" "''usc''" 0
        "CHR ''.''" "CHR ''.''" "[]" "[]"]
      generate_chunk_id_collision [of "[]" "[]" "''cfr''" 3 "CHR ''.''" "CHR ''/''" "''1''" "''195''"]
    by simp
qed

section \<open>Properties of the chunker\<close>

text \<open>
  C6. When the normalized text is empty, \<open>chunk_document\<close> returns no chunk and raises
  nothing; when it is not empty and no longer than \<open>max_chunk_size\<close>, \<open>chunk_document\<close>
  returns exactly one chunk, holding the normalized text, with \<open>chunk_index\<close> 0 and
  \<open>total_chunks\<close> 1.
\<close>

theorem chunk_document_short:
  "(clean_text t = [] \<longrightarrow> chunk_document max_chunk_size os tok t md = Inr [])
   \<and> (clean_text t \<noteq> [] \<and> length (clean_text t) \<le> max_chunk_size \<longrightarrow>
        (\<exists>c. chunk_document max_chunk_size os tok t md = Inr [c]
             \<and> chunk_text c = clean_text t
             \<and> chunk_index (metadata c) = 0
             \<and> total_chunks (metadata c) = 1))"
  by (simp add: chunk_document_def Let_def make_chunk_metadata_def)

theorem chunk_document_short_witness:
  "clean_text [space, newline, space] = []
   \<and> chunk_document 2000 200 None [space, newline, space]
         \<lparr>md_source_type = ''usc'', md_citation = ''26 U.S.C. 195'', md_title = None,
          md_section = None, md_url = None, md_version_date = None, md_extra_fields = []\<rparr> = Inr []
   \<and> clean_text '' Start-up  expenditures. '' \<noteq> []
   \<and> length (clean_text '' Start-up  expenditures. '') \<le> 2000
   \<and> (\<exists>c. chunk_document 2000 200 None '' Start-up  expenditures. ''
         \<lparr>md_source_type = ''usc'', md_citation = ''26 U.S.C. 195'', md_title = None,
          md_section = None, md_url = None, md_version_date = None, md_extra_fields = []\<rparr> = Inr [c]
          \<and> chunk_text c = clean_text '' Start-up  expenditures. ''
          \<and> chunk_index (metadata c) = 0
          \<and> total_chunks (metadata c) = 1)"
proof -
  have e: "clean_text [space, newline, space] = []"
    by code_simp
  have n: "clean_text '' Start-up  expenditures. '' = ''Start-up expenditures.''"
    by code_simp
  have l: "clean_text '' Start-up  expenditures. '' \<noteq> []
      \<and> length (clean_text '' Start-up  expenditures. '') \<le> 2000"
    unfolding n by simp
  show ?thesis
    using e l
      chunk_document_short [of "[space, newline, space]" 2000 200 None
        "\<lparr>md_source_type = ''usc'', md_citation = ''26 U.S.C. 195'', md_title = None,  md_section = None, md_url = None, md_version_date = None, md_extra_fields = []\<rparr>"]
      chunk_document_short [of "'' Start-up  expenditures. ''" 2000 200 None
        "\<lparr>md_source_type = ''usc'', md_citation = ''26 U.S.C. 195'', md_title = None,  md_section = None, md_url = None, md_version_date = None, md_extra_fields = []\<rparr>"]
    by blast
qed

text \<open>
  C7. The claim is that a paragraph longer than \<open>max_chunk_size\<close> is split by sentences
  wherever it stands, also as the first paragraph with the buffer still empty, and that its
  sentences reach the chunks. In the source the sentence split sits inside
  \<open>if current_chunk:\<close>, so with an empty buffer the paragraph is dropped: a text of one
  paragraph of 21 characters, with \<open>max_chunk_size\<close> 10, gives no chunk at all. With a
  buffer, a middle piece that fits is assigned to \<open>current_chunk\<close> and then overwritten:
  the sentence \<open>Ffffffff.\<close> of the second text is in no chunk.
\<close>

theorem oversized_paragraph_dropped:
  "clean_text ''Aaaa bbbb. Cccc dddd.'' = ''Aaaa bbbb. Cccc dddd.''
   \<and> split_paragraphs [] ''Aaaa bbbb. Cccc dddd.'' = [''Aaaa bbbb. Cccc dddd.'']
   \<and> split_by_sentences 10 None ''Aaaa bbbb. Cccc dddd.'' = [''Aaaa bbbb.'', ''Cccc dddd.'']
   \<and> chunk_document 10 2 tok ''Aaaa bbbb. Cccc dddd.'' md = Inr []
   \<and> split_by_sentences 12 None ''Aaaa. Bbbb. Cc. Dd. Ee. Ffffffff. Gg.''
       = [''Aaaa. Bbbb.'', ''Cc. Dd. Ee.'', ''Ffffffff.'', ''Gg.'']
   \<and> map_sum id (map chunk_text)
         (chunk_document 12 3 None
            (''Hi.'' @ [newline, newline] @ ''Aaaa. Bbbb. Cc. Dd. Ee. Ffffffff. Gg.'') md)
       = Inr [''Hi.'', ''Hi.Aaaa. Bbbb.'', ''Hi.Cc. Dd. Ee.'', ''Ee.Gg.'']"
proof -
  have "clean_text ''Aaaa bbbb. Cccc dddd.'' = ''Aaaa bbbb. Cccc dddd.''"
    by code_simp
  moreover have "split_paragraphs [] ''Aaaa bbbb. Cccc dddd.'' = [''Aaaa bbbb. Cccc dddd.'']"
    by code_simp
  moreover have "split_by_sentences 10 None ''Aaaa bbbb. Cccc dddd.''
      = [''Aaaa bbbb.'', ''Cccc dddd.'']"
    by code_simp
  moreover have "chunk_document 10 2 tok ''Aaaa bbbb. Cccc dddd.'' md = Inr []"
    by code_simp
  moreover have "split_by_sentences 12 None ''Aaaa. Bbbb. Cc. Dd. Ee. Ffffffff. Gg.''
       = [''Aaaa. Bbbb.'', ''Cc. Dd. Ee.'', ''Ffffffff.'', ''Gg.'']"
    by code_simp
  moreover have "map_sum id (map chunk_text)
         (chunk_document 12 3 None
            (''Hi.'' @ [newline, newline] @ ''Aaaa. Bbbb. Cc. Dd. Ee. Ffffffff. Gg.'') md)
       = Inr [''Hi.'', ''Hi.Aaaa. Bbbb.'', ''Hi.Cc. Dd. Ee.'', ''Ee.Gg.'']"
    by code_simp
  ultimately show ?thesis
    by blast
qed

text \<open>
  C4. The claim is that no chunk is longer than \<open>max_chunk_size + overlap_size\<close> unless one
  sentence alone is longer than \<open>max_chunk_size\<close>. With \<open>max_chunk_size\<close> 10 and
  \<open>overlap_size\<close> 2, and a tokenizer that splits \<open>Aaaa. Bbbb.\<close> into its two sentences of
  5 characters, the grouping of sentences accepts both (5 + 5 is not above 10) and joins
  them with a space into a piece of 11 characters; with the overlap before it the chunk has
  13 characters, above 12. With \<open>overlap_size\<close> 0 the slice \<open>current_chunk[-0:]\<close> is the
  whole buffer, and the second chunk has 12 characters, above 10, with no sentence mark in
  the text at all and both paragraphs of 8 characters.
\<close>

theorem chunk_longer_than_bound:
  "map_sum id (map chunk_text)
      (chunk_document 10 2
         (Some (\<lambda>t. if t = ''Aaaa. Bbbb.'' then Some [''Aaaa.'', ''Bbbb.''] else Some [t]))
         (''Hi.'' @ [newline, newline] @ ''Aaaa. Bbbb.'') md)
     = Inr [''Hi.'', ''i.Aaaa. Bbbb.'', ''Aaaa. Bbbb.'']
   \<and> length ''i.Aaaa. Bbbb.'' = 13
   \<and> map_sum id (map chunk_text)
        (chunk_document 10 0 tok (''aaaa bbb'' @ [newline, newline] @ ''cccc ddd'') md)
     = Inr [''aaaa bbb'', ''aaaacccc ddd'']
   \<and> length ''aaaacccc ddd'' = 12"
proof -
  have "map_sum id (map chunk_text)
      (chunk_document 10 2
         (Some (\<lambda>t. if t = ''Aaaa. Bbbb.'' then Some [''Aaaa.'', ''Bbbb.''] else Some [t]))
         (''Hi.'' @ [newline, newline] @ ''Aaaa. Bbbb.'') md)
     = Inr [''Hi.'', ''i.Aaaa. Bbbb.'', ''Aaaa. Bbbb.'']"
    by code_simp
  moreover have "map_sum id (map chunk_text)
        (chunk_document 10 0 tok (''aaaa bbb'' @ [newline, newline] @ ''cccc ddd'') md)
     = Inr [''aaaa bbb'', ''aaaacccc ddd'']"
    by code_simp
  ultimately show ?thesis
    by simp
qed

text \<open>
  C8. The claim is that the seed of the next buffer is the last \<open>overlap_size\<close> characters
  of the flushed buffer trimmed to a word boundary, and is empty when that window holds no
  space. In the source a window without a space is kept whole: after the buffer
  \<open>abcdefgh\<close>, with \<open>overlap_size\<close> 3, the seed is \<open>fgh\<close>, and the next chunk starts with
  it. After the buffer \<open>the tax code\<close>, with \<open>overlap_size\<close> 6, the seed is \<open>x code\<close>,
  which starts inside a word.
\<close>

theorem overlap_seed_not_dropped:
  "py_suffix 3 ''abcdefgh'' = ''fgh''
   \<and> space \<notin> set ''fgh''
   \<and> overlap_seed 3 ''abcdefgh'' = ''fgh''
   \<and> overlap_seed 3 ''abcdefgh'' \<noteq> []
   \<and> overlap_seed 6 ''the tax code'' = ''x code''
   \<and> map_sum id (map chunk_text)
        (chunk_document 10 3 None (''abcdefgh'' @ [newline, newline] @ ''ijklmnop'')
           \<lparr>md_source_type = ''usc'', md_citation = ''1'', md_title = None, md_section = None,
            md_url = None, md_version_date = None, md_extra_fields = []\<rparr>)
       = Inr [''abcdefgh'', ''fghijklmnop'']"
proof -
  have "py_suffix 3 ''abcdefgh'' = ''fgh''"
    by code_simp
  moreover have "space \<notin> set ''fgh''"
    by (simp add: space_def)
  moreover have s: "overlap_seed 3 ''abcdefgh'' = ''fgh''"
    by code_simp
  moreover have "overlap_seed 3 ''abcdefgh'' \<noteq> []"
    unfolding s by simp
  moreover have "overlap_seed 6 ''the tax code'' = ''x code''"
    by code_simp
  moreover have "map_sum id (map chunk_text)
        (chunk_document 10 3 None (''abcdefgh'' @ [newline, newline] @ ''ijklmnop'')
           \<lparr>md_source_type = ''usc'', md_citation = ''1'', md_title = None, md_section = None,
            md_url = None, md_version_date = None, md_extra_fields = []\<rparr>)
       = Inr [''abcdefgh'', ''fghijklmnop'']"
    by code_simp
  ultimately show ?thesis
    by blast
qed

text \<open>
  The trim to a word boundary is the part of C8 that the source attempts and misses.
  \<open>_get_overlap_at_word_boundary\<close> ("Ensures overlap doesn't cut words in half") cuts a
  text longer than \<open>overlap_size\<close> at a space, but \<open>_split_into_chunks\<close> hands it the slice
  \<open>current_chunk[-self.overlap_size:]\<close>, which is never longer than \<open>overlap_size\<close>, so
  the first \<open>return\<close> of the helper gives the slice back as it is: at a flush the seed is the
  whole window, whether or not it starts inside a word. This is a defect of the source; the
  amended claim below says nothing about the trim.
\<close>

lemma word_boundary_trim_never_runs:
  assumes "0 < os"
  shows "overlap_seed os buf = drop (length buf - os) buf"
proof -
  from assms have w: "py_suffix os buf = drop (length buf - os) buf"
    by (simp add: py_suffix_def)
  have "length (drop (length buf - os) buf) \<le> os"
    by simp
  then show ?thesis
    unfolding overlap_seed_def w get_overlap_at_word_boundary_def by simp
qed

lemma word_boundary_trim_example:
  "get_overlap_at_word_boundary 6 ''the tax code'' = ''x''
   \<and> overlap_seed 6 ''the tax code'' = ''x code''"
proof -
  have "get_overlap_at_word_boundary 6 ''the tax code'' = ''x''"
    by code_simp
  moreover have "overlap_seed 6 ''the tax code'' = ''x code''"
    by code_simp
  ultimately show ?thesis
    by simp
qed

text \<open>
  Inside the sentence fallback the chunks after the first piece are not seeded from the
  chunk flushed just before them: the seed computed at the flush of the buffer is used
  again (or, after a middle piece is stored, a seed taken from that piece). With
  \<open>max_chunk_size\<close> 12 and \<open>overlap_size\<close> 3 the third chunk below starts with \<open>lo.\<close>,
  the end of the first chunk, and not with the end of the second. The amended claim
  is therefore about the flush of the accumulated buffer, lines 156 to 161 of the source.
\<close>

lemma sentence_fallback_reuses_seed:
  "map_sum id (map chunk_text)
      (chunk_document 12 3 None (''Hello.'' @ [newline, newline] @ ''Aaaa bbbb. Cccc dddd.'') md)
     = Inr [''Hello.'', ''lo.Aaaa bbbb.'', ''lo.Cccc dddd.'']"
  by code_simp

lemma paragraph_loop_append:
  "paragraph_loop m os tok (xs @ ys) st =
     (case paragraph_loop m os tok xs st of
        Inl e \<Rightarrow> Inl e
      | Inr st' \<Rightarrow> paragraph_loop m os tok ys st')"
  by (induction xs arbitrary: st) (simp_all split: sum.splits)

lemma fold_middle_chunk_keeps:
  "fold (middle_chunk m os) ps (cs, ov, cur) = (cs', ov', cur') \<Longrightarrow> prefix cs cs'"
proof (induction ps arbitrary: cs ov cur)
  case Nil
  then show ?case by simp
next
  case (Cons p ps)
  obtain c1 o1 k1 where s: "middle_chunk m os p (cs, ov, cur) = (c1, o1, k1)"
    by (cases "middle_chunk m os p (cs, ov, cur)") auto
  then have "prefix cs c1"
    by (auto simp: middle_chunk_def Let_def split: if_splits)
  moreover have "fold (middle_chunk m os) ps (c1, o1, k1) = (cs', ov', cur')"
    using Cons.prems s by simp
  then have "prefix c1 cs'"
    by (rule Cons.IH)
  ultimately show ?case
    by (rule prefix_order.trans)
qed

text \<open>
  C8, as amended. Whenever the chunker, with a positive \<open>overlap_size\<close>, flushes the
  accumulated buffer because the next paragraph does not fit, what it writes next (the next
  buffer for a paragraph of at most \<open>max_chunk_size\<close> characters, the chunk of the first
  sentence piece for a longer one) is the overlap seed followed by that paragraph or piece,
  and the seed is taken from the window of the last \<open>overlap_size\<close> characters of the
  buffer just flushed: it is an initial part of that window, of at most \<open>overlap_size\<close>
  characters, and when the window holds no space the seed is the whole window (the overlap
  is kept, not dropped). The run is given as in \<open>chunk_document\<close>: the paragraphs of the
  normalized text, the state \<open>(chunks, current_chunk)\<close> reached after those before \<open>p\<close>,
  and the state after \<open>p\<close>.
\<close>

theorem flush_seeds_next_buffer:
  assumes "0 < os"
    and "split_paragraphs [] (clean_text t) = pre @ p # post"
    and "paragraph_loop m os tok pre ([], []) = Inr (chunks, current)"
    and "current \<noteq> []" and "strip p \<noteq> []"
    and "\<not> length current + length (strip p) + 2 \<le> m"
  shows "prefix (overlap_seed os current) (drop (length current - os) current)
    \<and> length (overlap_seed os current) \<le> os
    \<and> (space \<notin> set (drop (length current - os) current)
         \<longrightarrow> overlap_seed os current = drop (length current - os) current)
    \<and> (length (strip p) \<le> m \<longrightarrow>
         paragraph_loop m os tok (pre @ [p]) ([], [])
           = Inr (chunks @ [current], overlap_seed os current @ strip p))
    \<and> (m < length (strip p) \<and> split_by_sentences m tok (strip p) \<noteq> [] \<longrightarrow>
         (\<exists>chunks' current'.
            paragraph_loop m os tok (pre @ [p]) ([], []) = Inr (chunks', current')
            \<and> take (length chunks + 2) chunks'
                = chunks @ [current,
                    overlap_seed os current @ hd (split_by_sentences m tok (strip p))]))"
proof -
  let ?seed = "overlap_seed os current"
  let ?pcs = "split_by_sentences m tok (strip p)"
  have seed: "?seed = drop (length current - os) current"
    using assms(1) by (rule word_boundary_trim_never_runs)
  have loop: "paragraph_loop m os tok (pre @ [p]) ([], [])
      = paragraph_step m os tok p (chunks, current)"
    by (simp add: paragraph_loop_append assms(3) split: sum.splits)
  have regular: "paragraph_step m os tok p (chunks, current)
      = Inr (chunks @ [current], ?seed @ strip p)" if "length (strip p) \<le> m"
    using that assms(4-6) by (simp add: paragraph_step_def Let_def)
  have long: "\<exists>chunks' current'.
      paragraph_step m os tok p (chunks, current) = Inr (chunks', current')
      \<and> take (length chunks + 2) chunks' = chunks @ [current, ?seed @ hd ?pcs]"
    if big: "m < length (strip p)" and ne: "?pcs \<noteq> []"
  proof -
    obtain c3 o3 k3 where f: "fold (middle_chunk m os) (butlast (tl ?pcs))
        ((chunks @ [current]) @ [?seed @ hd ?pcs], ?seed, ?seed @ hd ?pcs) = (c3, o3, k3)"
      by (cases "fold (middle_chunk m os) (butlast (tl ?pcs))
        ((chunks @ [current]) @ [?seed @ hd ?pcs], ?seed, ?seed @ hd ?pcs)") auto
    have "prefix ((chunks @ [current]) @ [?seed @ hd ?pcs]) c3"
      using f by (rule fold_middle_chunk_keeps)
    then have t: "take (length chunks + 2) c3 = chunks @ [current, ?seed @ hd ?pcs]"
      by (auto simp: prefix_def)
    have "paragraph_step m os tok p (chunks, current)
        = Inr (c3, if length ?pcs > 1 then o3 @ last ?pcs else last ?pcs)"
      using big ne assms(4-6) f by (simp add: paragraph_step_def Let_def)
    with t show ?thesis
      by blast
  qed
  show ?thesis
    unfolding loop using seed regular long by simp
qed

theorem flush_seeds_next_buffer_witness:
  "split_paragraphs [] (clean_text (''abcdefgh'' @ [newline, newline] @ ''ijklmnop''))
     = [''abcdefgh''] @ ''ijklmnop'' # []
   \<and> paragraph_loop 10 3 None [''abcdefgh''] ([], []) = Inr ([], ''abcdefgh'')
   \<and> space \<notin> set (drop (length ''abcdefgh'' - 3) ''abcdefgh'')
   \<and> overlap_seed 3 ''abcdefgh'' = drop (length ''abcdefgh'' - 3) ''abcdefgh''
   \<and> paragraph_loop 10 3 None ([''abcdefgh''] @ [''ijklmnop'']) ([], [])
       = Inr ([] @ [''abcdefgh''], overlap_seed 3 ''abcdefgh'' @ strip ''ijklmnop'')
   \<and> split_paragraphs [] (clean_text (''Hello.'' @ [newline, newline] @ ''Aaaa bbbb. Cccc dddd.''))
       = [''Hello.''] @ ''Aaaa bbbb. Cccc dddd.'' # []
   \<and> paragraph_loop 12 3 None [''Hello.''] ([], []) = Inr ([], ''Hello.'')
   \<and> split_by_sentences 12 None (strip ''Aaaa bbbb. Cccc dddd.'') = [''Aaaa bbbb.'', ''Cccc dddd.'']
   \<and> (\<exists>chunks' current'.
        paragraph_loop 12 3 None ([''Hello.''] @ [''Aaaa bbbb. Cccc dddd.'']) ([], [])
          = Inr (chunks', current')
        \<and> take (length ([] :: string list) + 2) chunks'
            = [] @ [''Hello.'', overlap_seed 3 ''Hello.''
                 @ hd (split_by_sentences 12 None (strip ''Aaaa bbbb. Cccc dddd.''))])"
proof -
  have pos: "(0::nat) < 3"
    by simp
  have ps1: "split_paragraphs [] (clean_text (''abcdefgh'' @ [newline, newline] @ ''ijklmnop''))
      = [''abcdefgh''] @ ''ijklmnop'' # []"
    by code_simp
  have r1: "paragraph_loop 10 3 None [''abcdefgh''] ([], []) = Inr ([], ''abcdefgh'')"
    by code_simp
  have c1: "''abcdefgh'' \<noteq> []" "strip ''ijklmnop'' \<noteq> []"
    "\<not> length ''abcdefgh'' + length (strip ''ijklmnop'') + 2 \<le> 10"
    "length (strip ''ijklmnop'') \<le> 10"
    by code_simp+
  have n1: "space \<notin> set (drop (length ''abcdefgh'' - 3) ''abcdefgh'')"
    by (simp add: space_def)
  have ps2: "split_paragraphs []
        (clean_text (''Hello.'' @ [newline, newline] @ ''Aaaa bbbb. Cccc dddd.''))
      = [''Hello.''] @ ''Aaaa bbbb. Cccc dddd.'' # []"
    by code_simp
  have r2: "paragraph_loop 12 3 None [''Hello.''] ([], []) = Inr ([], ''Hello.'')"
    by code_simp
  have c2: "''Hello.'' \<noteq> []" "strip ''Aaaa bbbb. Cccc dddd.'' \<noteq> []"
    "\<not> length ''Hello.'' + length (strip ''Aaaa bbbb. Cccc dddd.'') + 2 \<le> 12"
    "12 < length (strip ''Aaaa bbbb. Cccc dddd.'')"
    by code_simp+
  have s2: "split_by_sentences 12 None (strip ''Aaaa bbbb. Cccc dddd.'')
      = [''Aaaa bbbb.'', ''Cccc dddd.'']"
    by code_simp
  then have ne2: "split_by_sentences 12 None (strip ''Aaaa bbbb. Cccc dddd.'') \<noteq> []"
    by simp
  note first = flush_seeds_next_buffer [OF pos ps1 r1 c1(1,2,3)]
  note second = flush_seeds_next_buffer [OF pos ps2 r2 c2(1,2,3)]
  have "overlap_seed 3 ''abcdefgh'' = drop (length ''abcdefgh'' - 3) ''abcdefgh''"
    using first n1 by blast
  moreover have "paragraph_loop 10 3 None ([''abcdefgh''] @ [''ijklmnop'']) ([], [])
       = Inr ([] @ [''abcdefgh''], overlap_seed 3 ''abcdefgh'' @ strip ''ijklmnop'')"
    using first c1(4) by blast
  moreover have "\<exists>chunks' current'.
        paragraph_loop 12 3 None ([''Hello.''] @ [''Aaaa bbbb. Cccc dddd.'']) ([], [])
          = Inr (chunks', current')
        \<and> take (length ([] :: string list) + 2) chunks'
            = [] @ [''Hello.'', overlap_seed 3 ''Hello.''
                 @ hd (split_by_sentences 12 None (strip ''Aaaa bbbb. Cccc dddd.''))]"
    using second c2(4) ne2 by blast
  ultimately show ?thesis
    using ps1 r1 n1 ps2 r2 s2 by (intro conjI)
qed

section \<open>Properties of the batches\<close>

lemma batch_chunks_create [simp]:
  "batch_chunks (create_embedded_chunk_batch enc cur) = cur"
  by (simp add: batch_chunks_def create_embedded_chunk_batch_def comp_def)

lemma batch_size_create [simp]:
  "batch_size (create_embedded_chunk_batch enc cur) = length cur"
  by (simp add: create_embedded_chunk_batch_def)

lemma consistent_create:
  "cur \<noteq> [] \<Longrightarrow> consistent_batch (create_embedded_chunk_batch enc cur)"
  by (simp add: consistent_batch_def create_embedded_chunk_batch_def comp_def)

lemma within_limits_create:
  assumes "cur \<noteq> []"
    and "(length cur \<le> bsize \<and> sum_list (map (\<lambda>c. count_tokens enc (chunk_text c)) cur) \<le> m)
         \<or> length cur = 1"
    and "1 \<le> bsize"
  shows "within_limits bsize m (create_embedded_chunk_batch enc cur)"
proof (cases "length cur = 1")
  case True
  then obtain c where c: "cur = [c]"
    by (cases cur) auto
  show ?thesis
    using assms(3) unfolding c within_limits_def create_embedded_chunk_batch_def
    by (cases "count_tokens enc (chunk_text c) \<le> m") auto
next
  case False
  with assms(2) show ?thesis
    by (simp add: within_limits_def create_embedded_chunk_batch_def)
qed

lemma fold_batch_step_limits:
  assumes "1 \<le> bsize"
    and "\<forall>b \<in> set bs. within_limits bsize m b \<and> consistent_batch b"
    and "ct = sum_list (map (\<lambda>c. count_tokens enc (chunk_text c)) cur)"
    and "(length cur \<le> bsize \<and> ct \<le> m) \<or> length cur = 1"
    and "fold (batch_step enc bsize m) cs (bs, cur, ct) = (bs', cur', ct')"
  shows "(\<forall>b \<in> set bs'. within_limits bsize m b \<and> consistent_batch b)
     \<and> ct' = sum_list (map (\<lambda>c. count_tokens enc (chunk_text c)) cur')
     \<and> ((length cur' \<le> bsize \<and> ct' \<le> m) \<or> length cur' = 1)"
  using assms(2-)
proof (induction cs arbitrary: bs cur ct)
  case Nil
  then show ?case by auto
next
  case (Cons c cs)
  let ?c = "truncate_chunk enc c"
  let ?t = "count_tokens enc (chunk_text ?c)"
  show ?case
  proof (cases "(length cur \<ge> bsize \<or> ct + ?t > m) \<and> cur \<noteq> []")
    case True
    then have step: "batch_step enc bsize m c (bs, cur, ct)
        = (bs @ [create_embedded_chunk_batch enc cur], [?c], ?t)"
      by (simp add: batch_step_def Let_def)
    have new: "within_limits bsize m (create_embedded_chunk_batch enc cur)
        \<and> consistent_batch (create_embedded_chunk_batch enc cur)"
      using True Cons.prems(2,3) assms(1)
      by (auto intro!: within_limits_create consistent_create)
    show ?thesis
    proof (rule Cons.IH)
      show "\<forall>b\<in>set (bs @ [create_embedded_chunk_batch enc cur]).
          within_limits bsize m b \<and> consistent_batch b"
        using Cons.prems(1) new by auto
      show "?t = sum_list (map (\<lambda>c. count_tokens enc (chunk_text c)) [?c])"
        by simp
      show "(length [?c] \<le> bsize \<and> ?t \<le> m) \<or> length [?c] = 1"
        by simp
      show "fold (batch_step enc bsize m) cs
          (bs @ [create_embedded_chunk_batch enc cur], [?c], ?t) = (bs', cur', ct')"
        using Cons.prems(4) step by simp
    qed
  next
    case False
    then have step: "batch_step enc bsize m c (bs, cur, ct) = (bs, cur @ [?c], ct + ?t)"
      by (auto simp: batch_step_def Let_def)
    show ?thesis
    proof (rule Cons.IH)
      show "\<forall>b\<in>set bs. within_limits bsize m b \<and> consistent_batch b"
        using Cons.prems(1) .
      show "ct + ?t = sum_list (map (\<lambda>c. count_tokens enc (chunk_text c)) (cur @ [?c]))"
        using Cons.prems(2) by simp
      show "(length (cur @ [?c]) \<le> bsize \<and> ct + ?t \<le> m) \<or> length (cur @ [?c]) = 1"
        using False by (cases "cur = []") auto
      show "fold (batch_step enc bsize m) cs (bs, cur @ [?c], ct + ?t) = (bs', cur', ct')"
        using Cons.prems(4) step by simp
    qed
  qed
qed

lemma fold_batch_step_order:
  "fold (batch_step enc bsize m) cs (bs, cur, ct) = (bs', cur', ct') \<Longrightarrow>
   concat (map batch_chunks bs') @ cur'
     = concat (map batch_chunks bs) @ cur @ map (truncate_chunk enc) cs"
proof (induction cs arbitrary: bs cur ct)
  case Nil
  then show ?case by simp
next
  case (Cons c cs)
  show ?case
  proof (cases "(length cur \<ge> bsize \<or> ct + count_tokens enc (chunk_text (truncate_chunk enc c)) > m)
      \<and> cur \<noteq> []")
    case True
    then have "batch_step enc bsize m c (bs, cur, ct)
        = (bs @ [create_embedded_chunk_batch enc cur], [truncate_chunk enc c],
           count_tokens enc (chunk_text (truncate_chunk enc c)))"
      by (simp add: batch_step_def Let_def)
    with Cons.prems Cons.IH [of "bs @ [create_embedded_chunk_batch enc cur]"
        "[truncate_chunk enc c]" "count_tokens enc (chunk_text (truncate_chunk enc c))"]
    show ?thesis by simp
  next
    case False
    then have "batch_step enc bsize m c (bs, cur, ct)
        = (bs, cur @ [truncate_chunk enc c],
           ct + count_tokens enc (chunk_text (truncate_chunk enc c)))"
      by (auto simp: batch_step_def Let_def)
    with Cons.prems Cons.IH [of bs "cur @ [truncate_chunk enc c]"
        "ct + count_tokens enc (chunk_text (truncate_chunk enc c))"]
    show ?thesis by simp
  qed
qed

lemma fold_batch_step_no_flush:
  assumes "\<forall>c \<in> set cs. count_tokens enc (chunk_text c) = t"
    and "t \<le> 3000"
    and "length cur + length cs \<le> bsize"
    and "ct + t * length cs \<le> m"
  shows "fold (batch_step enc bsize m) cs (bs, cur, ct) = (bs, cur @ cs, ct + t * length cs)"
  using assms(1,3,4)
proof (induction cs arbitrary: cur ct)
  case Nil
  then show ?case by simp
next
  case (Cons c cs)
  have c: "truncate_chunk enc c = c" "count_tokens enc (chunk_text c) = t"
    using Cons.prems(1) assms(2) by (simp_all add: truncate_chunk_def)
  have "batch_step enc bsize m c (bs, cur, ct) = (bs, cur @ [c], ct + t)"
    using Cons.prems(2,3) by (simp add: batch_step_def c)
  moreover have "fold (batch_step enc bsize m) cs (bs, cur @ [c], ct + t)
      = (bs, (cur @ [c]) @ cs, (ct + t) + t * length cs)"
    using Cons.prems by (intro Cons.IH) auto
  ultimately show ?case
    by simp
qed

lemma create_batches_45:
  assumes len: "length cs = 45"
    and tok: "\<forall>c \<in> set cs. count_tokens enc (chunk_text c) = 50"
  shows "map batch_size (create_batches enc 40 3500 cs) = [40, 5]"
proof -
  define c where "c = cs ! 40"
  have split: "cs = take 40 cs @ c # drop 41 cs"
    using id_take_nth_drop [of 40 cs] len unfolding c_def by simp
  have t1: "\<forall>x \<in> set (take 40 cs). count_tokens enc (chunk_text x) = 50"
    using tok by (auto dest: in_set_takeD)
  have t2: "\<forall>x \<in> set (drop 41 cs). count_tokens enc (chunk_text x) = 50"
    using tok by (auto dest: in_set_dropD)
  have tc: "count_tokens enc (chunk_text c) = 50" "truncate_chunk enc c = c"
    using tok len unfolding c_def by (simp_all add: truncate_chunk_def)
  have p1: "fold (batch_step enc 40 3500) (take 40 cs) ([], [], 0) = ([], take 40 cs, 2000)"
    using fold_batch_step_no_flush [OF t1, of "[]" 40 0 3500 "[]"] len by simp
  have p2: "batch_step enc 40 3500 c ([], take 40 cs, 2000)
      = ([create_embedded_chunk_batch enc (take 40 cs)], [c], 50)"
    using len by (auto simp: batch_step_def tc)
  have p3: "fold (batch_step enc 40 3500) (drop 41 cs)
        ([create_embedded_chunk_batch enc (take 40 cs)], [c], 50)
      = ([create_embedded_chunk_batch enc (take 40 cs)], [c] @ drop 41 cs, 250)"
    using fold_batch_step_no_flush [OF t2, of "[c]" 40 50 3500] len by simp
  have "fold (batch_step enc 40 3500) cs ([], [], 0)
      = ([create_embedded_chunk_batch enc (take 40 cs)], c # drop 41 cs, 250)"
    by (subst split) (simp add: p1 p2 p3)
  then show ?thesis
    using len by (simp add: create_batches_def)
qed

text \<open>
  C3. For a \<open>batch_size\<close> of at least 1, no batch of \<open>_create_batches\<close> has more than
  \<open>batch_size\<close> chunks or more than \<open>max_tokens_per_batch\<close> tokens, except a batch of one
  chunk whose own token count is above the budget; every batch is not empty and records its
  size and the sum of its token counts; the chunks of the batches, batch after batch, are the
  input chunks in their order (each after the cut of \<open>_create_batches\<close> to 9000
  characters when it has more than 3000 tokens); and 45 chunks of 50 tokens each, with
  \<open>batch_size\<close> 40 and \<open>max_tokens_per_batch\<close> 3500, give exactly two batches, of sizes 40
  and 5.
\<close>

theorem create_batches_limits:
  "(1 \<le> bsize \<longrightarrow>
      (\<forall>b \<in> set (create_batches enc bsize m cs). within_limits bsize m b))
   \<and> (\<forall>b \<in> set (create_batches enc bsize m cs). consistent_batch b)
   \<and> concat (map batch_chunks (create_batches enc bsize m cs)) = map (truncate_chunk enc) cs
   \<and> (length cs = 45 \<and> (\<forall>c \<in> set cs. count_tokens enc (chunk_text c) = 50) \<longrightarrow>
        map batch_size (create_batches enc 40 3500 cs) = [40, 5])"
proof -
  obtain bs cur ct where f: "fold (batch_step enc bsize m) cs ([], [], 0) = (bs, cur, ct)"
    by (cases "fold (batch_step enc bsize m) cs ([], [], 0)") auto
  have res: "create_batches enc bsize m cs
      = (if cur \<noteq> [] then bs @ [create_embedded_chunk_batch enc cur] else bs)"
    by (simp add: create_batches_def f)
  have order: "concat (map batch_chunks bs) @ cur = map (truncate_chunk enc) cs"
    using fold_batch_step_order [OF f] by simp
  have consistent: "\<forall>b \<in> set (create_batches enc bsize m cs). consistent_batch b"
  proof (cases "1 \<le> bsize")
    case True
    have "(\<forall>b \<in> set bs. within_limits bsize m b \<and> consistent_batch b)
        \<and> ct = sum_list (map (\<lambda>c. count_tokens enc (chunk_text c)) cur)
        \<and> ((length cur \<le> bsize \<and> ct \<le> m) \<or> length cur = 1)"
      by (rule fold_batch_step_limits [OF True _ _ _ f]) simp_all
    then have "\<forall>b \<in> set bs. consistent_batch b"
      by simp
    then show ?thesis
      by (auto simp: res consistent_create)
  next
    case False
    then have z: "bsize = 0" by simp
    have "\<forall>b \<in> set bs'. consistent_batch b"
      if "fold (batch_step enc 0 m) xs (bs0, cur0, ct0) = (bs', cur', ct')"
        "\<forall>b \<in> set bs0. consistent_batch b" for xs bs0 cur0 ct0 bs' cur' ct'
      using that
    proof (induction xs arbitrary: bs0 cur0 ct0)
      case Nil
      then show ?case by auto
    next
      case (Cons x xs)
      obtain bs1 cur1 ct1 where s: "batch_step enc 0 m x (bs0, cur0, ct0) = (bs1, cur1, ct1)"
        by (cases "batch_step enc 0 m x (bs0, cur0, ct0)") auto
      then have "\<forall>b \<in> set bs1. consistent_batch b"
        using Cons.prems(2)
        by (auto simp: batch_step_def Let_def consistent_create split: if_splits)
      moreover have "fold (batch_step enc 0 m) xs (bs1, cur1, ct1) = (bs', cur', ct')"
        using Cons.prems(1) s by simp
      ultimately show ?case
        by (rule Cons.IH [rotated])
    qed
    from this [of cs "[]" "[]" 0 bs cur ct] f z have "\<forall>b \<in> set bs. consistent_batch b"
      by simp
    then show ?thesis
      by (auto simp: res consistent_create)
  qed
  have limits: "\<forall>b \<in> set (create_batches enc bsize m cs). within_limits bsize m b"
    if "1 \<le> bsize"
  proof -
    have "(\<forall>b \<in> set bs. within_limits bsize m b \<and> consistent_batch b)
        \<and> ct = sum_list (map (\<lambda>c. count_tokens enc (chunk_text c)) cur)
        \<and> ((length cur \<le> bsize \<and> ct \<le> m) \<or> length cur = 1)"
      by (rule fold_batch_step_limits [OF that _ _ _ f]) simp_all
    then show ?thesis
      using that by (auto simp: res intro!: within_limits_create)
  qed
  have "concat (map batch_chunks (create_batches enc bsize m cs)) = map (truncate_chunk enc) cs"
    using order by (auto simp: res)
  with limits consistent create_batches_45 show ?thesis
    by blast
qed

theorem create_batches_limits_witness:
  "(1::nat) \<le> 40
   \<and> length (replicate 45 \<lparr>chunk_text = replicate 150 CHR ''a'',
          metadata = make_chunk_metadata
            \<lparr>md_source_type = ''usc'', md_citation = ''1'', md_title = None, md_section = None,
             md_url = None, md_version_date = None, md_extra_fields = []\<rparr> 0 1,
          string_id = ''usc-1-chunk-0''\<rparr>) = 45
   \<and> count_tokens None (chunk_text \<lparr>chunk_text = replicate 150 CHR ''a'',
          metadata = make_chunk_metadata
            \<lparr>md_source_type = ''usc'', md_citation = ''1'', md_title = None, md_section = None,
             md_url = None, md_version_date = None, md_extra_fields = []\<rparr> 0 1,
          string_id = ''usc-1-chunk-0''\<rparr>) = 50
   \<and> map batch_size (create_batches None 40 3500 (replicate 45 \<lparr>chunk_text = replicate 150 CHR ''a'',
          metadata = make_chunk_metadata
            \<lparr>md_source_type = ''usc'', md_citation = ''1'', md_title = None, md_section = None,
             md_url = None, md_version_date = None, md_extra_fields = []\<rparr> 0 1,
          string_id = ''usc-1-chunk-0''\<rparr>)) = [40, 5]
   \<and> list_all (within_limits 40 3500) (create_batches None 40 3500 (replicate 45 \<lparr>chunk_text = replicate 150 CHR ''a'',
          metadata = make_chunk_metadata
            \<lparr>md_source_type = ''usc'', md_citation = ''1'', md_title = None, md_section = None,
             md_url = None, md_version_date = None, md_extra_fields = []\<rparr> 0 1,
          string_id = ''usc-1-chunk-0''\<rparr>))
   \<and> list_all consistent_batch (create_batches None 40 3500 (replicate 45 \<lparr>chunk_text = replicate 150 CHR ''a'',
          metadata = make_chunk_metadata
            \<lparr>md_source_type = ''usc'', md_citation = ''1'', md_title = None, md_section = None,
             md_url = None, md_version_date = None, md_extra_fields = []\<rparr> 0 1,
          string_id = ''usc-1-chunk-0''\<rparr>))
   \<and> concat (map batch_chunks (create_batches None 40 3500 (replicate 45 \<lparr>chunk_text = replicate 150 CHR ''a'',
          metadata = make_chunk_metadata
            \<lparr>md_source_type = ''usc'', md_citation = ''1'', md_title = None, md_section = None,
             md_url = None, md_version_date = None, md_extra_fields = []\<rparr> 0 1,
          string_id = ''usc-1-chunk-0''\<rparr>)))
       = map (truncate_chunk None) (replicate 45 \<lparr>chunk_text = replicate 150 CHR ''a'',
          metadata = make_chunk_metadata
            \<lparr>md_source_type = ''usc'', md_citation = ''1'', md_title = None, md_section = None,
             md_url = None, md_version_date = None, md_extra_fields = []\<rparr> 0 1,
          string_id = ''usc-1-chunk-0''\<rparr>)"
proof -
  let ?c = "\<lparr>chunk_text = replicate 150 CHR ''a'',
          metadata = make_chunk_metadata
            \<lparr>md_source_type = ''usc'', md_citation = ''1'', md_title = None, md_section = None,
             md_url = None, md_version_date = None, md_extra_fields = []\<rparr> 0 1,
          string_id = ''usc-1-chunk-0''\<rparr>"
  have one: "(1::nat) \<le> 40"
    by simp
  have len: "length (replicate 45 ?c) = 45"
    by simp
  have tok1: "count_tokens None (chunk_text ?c) = 50"
    by (simp add: count_tokens_def)
  then have tok: "\<forall>c \<in> set (replicate 45 ?c). count_tokens None (chunk_text c) = 50"
    by simp
  show ?thesis
    unfolding list_all_iff
    using one len tok tok1 create_batches_limits [of 40 None 3500 "replicate 45 ?c"]
    by blast
qed

section \<open>Chunk indices\<close>

lemma in_set_dropWhile: "x \<in> set xs \<Longrightarrow> \<not> P x \<Longrightarrow> x \<in> set (dropWhile P xs)"
  by (induction xs) auto

lemma set_strip: "c \<in> set (strip s) \<Longrightarrow> c \<in> set s"
proof -
  assume "c \<in> set (strip s)"
  then have "c \<in> set (dropWhile is_space (rev (dropWhile is_space s)))"
    by (simp add: strip_def)
  then have "c \<in> set (rev (dropWhile is_space s))"
    by (rule set_dropWhileD)
  then have "c \<in> set (dropWhile is_space s)"
    by simp
  then show ?thesis
    by (rule set_dropWhileD)
qed

lemma in_set_strip: "c \<in> set s \<Longrightarrow> \<not> is_space c \<Longrightarrow> c \<in> set (strip s)"
proof -
  assume c: "c \<in> set s" "\<not> is_space c"
  then have "c \<in> set (dropWhile is_space s)"
    by (rule in_set_dropWhile)
  then have "c \<in> set (rev (dropWhile is_space s))"
    by simp
  then have "c \<in> set (dropWhile is_space (rev (dropWhile is_space s)))"
    using c(2) by (rule in_set_dropWhile)
  then show ?thesis
    by (simp add: strip_def)
qed

lemma nonblank_iff: "nonblank s \<longleftrightarrow> (\<exists>c \<in> set s. \<not> is_space c)"
proof
  assume "nonblank s"
  then have "dropWhile is_space (rev (dropWhile is_space s)) \<noteq> []"
    by (simp add: nonblank_def strip_def)
  then obtain c where "c \<in> set (rev (dropWhile is_space s))" "\<not> is_space c"
    by (auto simp: dropWhile_eq_Nil_conv)
  then show "\<exists>c \<in> set s. \<not> is_space c"
    by (auto dest: set_dropWhileD)
next
  assume "\<exists>c \<in> set s. \<not> is_space c"
  then obtain c where "c \<in> set (strip s)"
    by (auto dest: in_set_strip)
  then have "strip s \<noteq> []"
    by (cases "strip s") auto
  then show "nonblank s"
    by (simp add: nonblank_def)
qed

lemma nonblank_append [simp]: "nonblank (a @ b) \<longleftrightarrow> nonblank a \<or> nonblank b"
  by (auto simp: nonblank_iff)

lemma nonblank_Nil [simp]: "\<not> nonblank []"
  by (simp add: nonblank_iff)

lemma nonblank_strip [simp]: "nonblank (strip s) \<longleftrightarrow> nonblank s"
  unfolding nonblank_iff [of "strip s"] nonblank_iff [of s]
  by (auto dest: set_strip in_set_strip)

lemma end_mark_not_space: "is_end_mark c \<Longrightarrow> \<not> is_space c"
  by (auto simp: is_end_mark_def is_space_def)

lemma findall_sentences_nonblank: "list_all nonblank (findall_sentences s)"
proof (induction s rule: findall_sentences.induct)
  case (1 s)
  let ?rest = "dropWhile (\<lambda>c. \<not> is_end_mark c) s"
  show ?case
  proof (cases "?rest = []")
    case True
    then show ?thesis
      by (subst findall_sentences.simps) (simp add: Let_def)
  next
    case False
    then have "is_end_mark (hd ?rest)"
      using hd_dropWhile [of "\<lambda>c. \<not> is_end_mark c" s] by simp
    then have "hd ?rest \<in> set (takeWhile is_end_mark ?rest)"
      using False by (cases ?rest) auto
    then have "nonblank (takeWhile (\<lambda>c. \<not> is_end_mark c) s @ takeWhile is_end_mark ?rest)"
      using \<open>is_end_mark (hd ?rest)\<close> by (auto simp: nonblank_iff dest: end_mark_not_space)
    moreover have "list_all nonblank (findall_sentences (dropWhile is_end_mark ?rest))"
      using False by (intro "1.IH") simp_all
    ultimately show ?thesis
      using False by (subst findall_sentences.simps) (simp add: Let_def)
  qed
qed

lemma fold_group_match_nonblank:
  assumes "list_all nonblank ms" "list_all nonblank chunks" "current = [] \<or> nonblank current"
    and "fold (group_match m) ms (chunks, current) = (chunks', current')"
  shows "list_all nonblank chunks' \<and> (current' = [] \<or> nonblank current')"
  using assms
proof (induction ms arbitrary: chunks current)
  case Nil
  then show ?case by auto
next
  case (Cons x ms)
  obtain c1 k1 where s: "group_match m x (chunks, current) = (c1, k1)"
    by (cases "group_match m x (chunks, current)") auto
  then have "list_all nonblank c1 \<and> (k1 = [] \<or> nonblank k1)"
    using Cons.prems(1,2,3) by (auto simp: group_match_def split: if_splits)
  moreover have "fold (group_match m) ms (c1, k1) = (chunks', current')"
    using Cons.prems(4) s by simp
  ultimately show ?case
    using Cons.IH [of c1 k1] Cons.prems(1) by simp
qed

lemma fold_group_sentence_nonblank:
  assumes "list_all nonblank ss" "list_all nonblank chunks" "current = [] \<or> nonblank current"
    and "fold (group_sentence m) ss (chunks, current) = (chunks', current')"
  shows "list_all nonblank chunks' \<and> (current' = [] \<or> nonblank current')"
  using assms
proof (induction ss arbitrary: chunks current)
  case Nil
  then show ?case by auto
next
  case (Cons x ss)
  obtain c1 k1 where s: "group_sentence m x (chunks, current) = (c1, k1)"
    by (cases "group_sentence m x (chunks, current)") auto
  then have "list_all nonblank c1 \<and> (k1 = [] \<or> nonblank k1)"
    using Cons.prems(1,2,3) by (auto simp: group_sentence_def split: if_splits)
  moreover have "fold (group_sentence m) ss (c1, k1) = (chunks', current')"
    using Cons.prems(4) s by simp
  ultimately show ?case
    using Cons.IH [of c1 k1] Cons.prems(1) by simp
qed

lemma group_matches_nonblank:
  "list_all nonblank ms \<Longrightarrow> list_all nonblank (group_matches m ms)"
proof -
  assume a: "list_all nonblank ms"
  obtain cs k where f: "fold (group_match m) ms ([], []) = (cs, k)"
    by (cases "fold (group_match m) ms ([], [])") auto
  from fold_group_match_nonblank [OF a _ _ f] have "list_all nonblank cs \<and> (k = [] \<or> nonblank k)"
    by simp
  then show ?thesis
    by (auto simp: group_matches_def f)
qed

lemma group_sentences_nonblank:
  "list_all nonblank ss \<Longrightarrow> list_all nonblank (group_sentences m ss)"
proof -
  assume a: "list_all nonblank ss"
  obtain cs k where f: "fold (group_sentence m) ss ([], []) = (cs, k)"
    by (cases "fold (group_sentence m) ss ([], [])") auto
  from fold_group_sentence_nonblank [OF a _ _ f] have "list_all nonblank cs \<and> (k = [] \<or> nonblank k)"
    by simp
  then show ?thesis
    by (auto simp: group_sentences_def f)
qed

lemma split_by_regex_nonblank: "nonblank t \<Longrightarrow> list_all nonblank (split_by_regex m t)"
  using group_matches_nonblank [OF findall_sentences_nonblank, of m t]
  by (simp add: split_by_regex_def Let_def)

lemma split_by_sentences_nonblank:
  "sentences_not_blank tok \<Longrightarrow> nonblank t \<Longrightarrow> list_all nonblank (split_by_sentences m tok t)"
  by (auto simp: split_by_sentences_def sentences_not_blank_def split_by_regex_nonblank
      group_sentences_nonblank split: option.splits)


lemma fold_middle_chunk_nonblank:
  assumes "list_all nonblank ps" "list_all nonblank chunks"
    and "fold (middle_chunk m os) ps (chunks, ov, cur) = (chunks', ov', cur')"
  shows "list_all nonblank chunks'"
  using assms
proof (induction ps arbitrary: chunks ov cur)
  case Nil
  then show ?case by auto
next
  case (Cons p ps)
  obtain c1 o1 k1 where s: "middle_chunk m os p (chunks, ov, cur) = (c1, o1, k1)"
    by (cases "middle_chunk m os p (chunks, ov, cur)") auto
  then have "list_all nonblank c1"
    using Cons.prems(1,2) by (auto simp: middle_chunk_def Let_def split: if_splits)
  moreover have "fold (middle_chunk m os) ps (c1, o1, k1) = (chunks', ov', cur')"
    using Cons.prems(3) s by simp
  ultimately show ?case
    using Cons.IH [of c1 o1 k1] Cons.prems(1) by simp
qed

lemma list_all_nonblank_parts:
  assumes "list_all nonblank ps" "ps \<noteq> []"
  shows "nonblank (hd ps)" "nonblank (last ps)" "list_all nonblank (butlast (tl ps))"
proof -
  show "nonblank (hd ps)"
    using assms by (cases ps) auto
  show "nonblank (last ps)"
    using assms by (auto simp: list_all_iff)
  show "list_all nonblank (butlast (tl ps))"
    using assms by (auto simp: list_all_iff dest: in_set_butlastD list.set_sel(2))
qed

lemma paragraph_step_nonblank:
  assumes tok: "sentences_not_blank tok"
    and inv: "list_all nonblank chunks" "current = [] \<or> nonblank current"
    and step: "paragraph_step m os tok p (chunks, current) = Inr (chunks', current')"
  shows "list_all nonblank chunks' \<and> (current' = [] \<or> nonblank current')"
proof (cases "strip p = []")
  case True
  with step inv show ?thesis
    by (simp add: paragraph_step_def)
next
  case False
  then have "nonblank p"
    by (simp add: nonblank_def)
  then have nb: "nonblank (strip p)"
    by simp
  show ?thesis
  proof (cases "length current + length (strip p) + 2 \<le> m")
    case True
    with step False inv nb show ?thesis
      by (auto simp: paragraph_step_def Let_def split: if_splits)
  next
    case fits: False
    show ?thesis
    proof (cases "current = []")
      case True
      with step False fits inv show ?thesis
        by (simp add: paragraph_step_def Let_def)
    next
      case cur: False
      then have nbc: "nonblank current"
        using inv(2) by simp
      show ?thesis
      proof (cases "length (strip p) > m")
        case False
        with step \<open>strip p \<noteq> []\<close> fits cur inv nb nbc show ?thesis
          by (auto simp: paragraph_step_def Let_def)
      next
        case True
        let ?pcs = "split_by_sentences m tok (strip p)"
        let ?ov = "overlap_seed os current"
        have all: "list_all nonblank ?pcs"
          using tok nb by (rule split_by_sentences_nonblank)
        have ne: "?pcs \<noteq> []"
          using step \<open>strip p \<noteq> []\<close> fits cur True
          by (auto simp: paragraph_step_def Let_def split: if_splits)
        obtain c3 o3 k3 where f: "fold (middle_chunk m os) (butlast (tl ?pcs))
            (chunks @ [current] @ [?ov @ hd ?pcs], ?ov, ?ov @ hd ?pcs) = (c3, o3, k3)"
          by (cases "fold (middle_chunk m os) (butlast (tl ?pcs))
            (chunks @ [current] @ [?ov @ hd ?pcs], ?ov, ?ov @ hd ?pcs)") auto
        have "list_all nonblank (chunks @ [current] @ [?ov @ hd ?pcs])"
          using inv(1) nbc list_all_nonblank_parts(1) [OF all ne] by simp
        with fold_middle_chunk_nonblank [OF list_all_nonblank_parts(3) [OF all ne] _ f]
        have c3: "list_all nonblank c3"
          by simp
        have res: "chunks' = c3
            \<and> current' = (if length ?pcs > 1 then o3 @ last ?pcs else last ?pcs)"
          using step \<open>strip p \<noteq> []\<close> fits cur True ne f
          by (simp add: paragraph_step_def Let_def)
        show ?thesis
          using res c3 list_all_nonblank_parts(2) [OF all ne] by simp
      qed
    qed
  qed
qed

lemma paragraph_loop_nonblank:
  assumes "sentences_not_blank tok"
    and "list_all nonblank chunks" "current = [] \<or> nonblank current"
    and "paragraph_loop m os tok ps (chunks, current) = Inr (chunks', current')"
  shows "list_all nonblank chunks' \<and> (current' = [] \<or> nonblank current')"
  using assms(2-)
proof (induction ps arbitrary: chunks current)
  case Nil
  then show ?case by auto
next
  case (Cons p ps)
  from Cons.prems(3) obtain c1 k1
    where s: "paragraph_step m os tok p (chunks, current) = Inr (c1, k1)"
      and l: "paragraph_loop m os tok ps (c1, k1) = Inr (chunks', current')"
    by (auto split: sum.splits)
  from paragraph_step_nonblank [OF assms(1) Cons.prems(1,2) s]
  have "list_all nonblank c1" "k1 = [] \<or> nonblank k1"
    by simp_all
  then show ?case
    using l by (rule Cons.IH)
qed

lemma make_chunk_objects_indices:
  assumes "list_all nonblank chunks"
  shows "map (\<lambda>c. chunk_index (metadata c)) (make_chunk_objects md chunks) = [0..<length chunks]
    \<and> map (\<lambda>c. total_chunks (metadata c)) (make_chunk_objects md chunks)
        = replicate (length chunks) (length chunks)
    \<and> length (make_chunk_objects md chunks) = length chunks"
proof -
  have gen: "concat (map (make_chunk md n) (enumerate k xs))
      = map (\<lambda>(idx, t). \<lparr>chunk_text = strip t, metadata = make_chunk_metadata md idx n,
            string_id = generate_chunk_id (md_source_type md) (md_citation md) (int idx)\<rparr>)
          (enumerate k xs)"
    if "list_all nonblank xs" for n k xs
    using that
    by (induction xs arbitrary: k) (simp_all add: make_chunk_def nonblank_def Let_def)
  have objs: "make_chunk_objects md chunks
      = map (\<lambda>(idx, t). \<lparr>chunk_text = strip t,
            metadata = make_chunk_metadata md idx (length chunks),
            string_id = generate_chunk_id (md_source_type md) (md_citation md) (int idx)\<rparr>)
          (enumerate 0 chunks)"
    unfolding make_chunk_objects_def by (rule gen [OF assms])
  have "map (\<lambda>c. chunk_index (metadata c)) (make_chunk_objects md chunks)
      = map fst (enumerate 0 chunks)"
    unfolding objs by (simp add: make_chunk_metadata_def case_prod_unfold comp_def)
  moreover have "map (\<lambda>c. total_chunks (metadata c)) (make_chunk_objects md chunks)
      = map (\<lambda>_. length chunks) (enumerate 0 chunks)"
    unfolding objs by (simp add: make_chunk_metadata_def case_prod_unfold comp_def)
  moreover have "length (make_chunk_objects md chunks) = length chunks"
    unfolding objs by simp
  ultimately show ?thesis
    by (simp add: map_replicate_const)
qed

text \<open>
  C5. When \<open>chunk_document\<close> returns chunks, with a sentence tokenizer that gives no blank
  sentence, every chunk has \<open>total_chunks\<close> equal to the number of chunks returned, and the
  values of \<open>chunk_index\<close> are 0, 1, ... up to that number less one, in order; so every
  \<open>chunk_index\<close> is below \<open>total_chunks\<close>.
\<close>

theorem chunk_indices_sequential:
  assumes "sentences_not_blank sent_tokenize"
    and "chunk_document max_chunk_size os sent_tokenize t md = Inr cs"
  shows "map (\<lambda>c. total_chunks (metadata c)) cs = replicate (length cs) (length cs)
    \<and> map (\<lambda>c. chunk_index (metadata c)) cs = [0..<length cs]
    \<and> (\<forall>c \<in> set cs. chunk_index (metadata c) < total_chunks (metadata c))"
proof -
  have main: "map (\<lambda>c. total_chunks (metadata c)) cs = replicate (length cs) (length cs)
    \<and> map (\<lambda>c. chunk_index (metadata c)) cs = [0..<length cs]"
  proof (cases "clean_text t = [] \<or> length (clean_text t) \<le> max_chunk_size")
    case True
    with assms(2) show ?thesis
      by (auto simp: chunk_document_def Let_def make_chunk_metadata_def split: if_splits)
  next
    case False
    with assms(2) have "split_into_chunks max_chunk_size os sent_tokenize (clean_text t) md = Inr cs"
      by (simp add: chunk_document_def Let_def)
    then obtain chunks current
      where l: "paragraph_loop max_chunk_size os sent_tokenize
            (split_paragraphs [] (clean_text t)) ([], []) = Inr (chunks, current)"
        and cs: "cs = make_chunk_objects md
            (if current \<noteq> [] then chunks @ [current] else chunks)"
      by (auto simp: split_into_chunks_def split: sum.splits)
    have "list_all nonblank chunks \<and> (current = [] \<or> nonblank current)"
      by (rule paragraph_loop_nonblank [OF assms(1) _ _ l]) simp_all
    then have "list_all nonblank (if current \<noteq> [] then chunks @ [current] else chunks)"
      by auto
    from make_chunk_objects_indices [OF this, of md] show ?thesis
      unfolding cs by simp
  qed
  moreover have "chunk_index (metadata c) < total_chunks (metadata c)" if "c \<in> set cs" for c
  proof -
    from that obtain i where i: "i < length cs" "cs ! i = c"
      by (auto simp: in_set_conv_nth)
    have "map (\<lambda>c. chunk_index (metadata c)) cs ! i = [0..<length cs] ! i"
      "map (\<lambda>c. total_chunks (metadata c)) cs ! i = replicate (length cs) (length cs) ! i"
      using main by simp_all
    with i show ?thesis
      by simp
  qed
  ultimately show ?thesis
    by blast
qed


theorem chunk_indices_sequential_witness:
  "\<exists>cs. chunk_document 10 2
        (Some (\<lambda>t. if t = ''Aaaa. Bbbb.'' then Some [''Aaaa.'', ''Bbbb.''] else None))
        (''Hi.'' @ [newline, newline] @ ''Aaaa. Bbbb.'')
        \<lparr>md_source_type = ''usc'', md_citation = ''1'', md_title = None, md_section = None,
         md_url = None, md_version_date = None, md_extra_fields = []\<rparr> = Inr cs
      \<and> map chunk_text cs = [''Hi.'', ''i.Aaaa. Bbbb.'', ''Aaaa. Bbbb.'']
      \<and> map (\<lambda>c. total_chunks (metadata c)) cs = [3, 3, 3]
      \<and> map (\<lambda>c. chunk_index (metadata c)) cs = [0, 1, 2]
      \<and> list_all (\<lambda>c. chunk_index (metadata c) < total_chunks (metadata c)) cs"
proof -
  let ?tok = "Some (\<lambda>t. if t = ''Aaaa. Bbbb.'' then Some [''Aaaa.'', ''Bbbb.''] else None)"
  let ?md = "\<lparr>md_source_type = ''usc'', md_citation = ''1'', md_title = None, md_section = None,
         md_url = None, md_version_date = None, md_extra_fields = []\<rparr>"
  let ?run = "chunk_document 10 2 ?tok (''Hi.'' @ [newline, newline] @ ''Aaaa. Bbbb.'') ?md"
  have "nonblank ''Aaaa.''" "nonblank ''Bbbb.''"
    by (simp_all add: nonblank_iff is_space_def)
  then have tok: "sentences_not_blank ?tok"
    by (auto simp: sentences_not_blank_def split: if_splits)
  have texts: "map_sum id (map chunk_text) ?run = Inr [''Hi.'', ''i.Aaaa. Bbbb.'', ''Aaaa. Bbbb.'']"
    by code_simp
  then obtain cs where run: "?run = Inr cs"
    and cs: "map chunk_text cs = [''Hi.'', ''i.Aaaa. Bbbb.'', ''Aaaa. Bbbb.'']"
    by (cases ?run) auto
  from cs have len: "length cs = 3"
    using length_map [of chunk_text cs] by simp
  have up: "[0..<3] = [0, 1, 2]"
    by (simp add: upt_rec)
  have rep: "replicate 3 (3::nat) = [3, 3, 3]"
    by (simp add: numeral_3_eq_3)
  have "map (\<lambda>c. total_chunks (metadata c)) cs = [3, 3, 3]
      \<and> map (\<lambda>c. chunk_index (metadata c)) cs = [0, 1, 2]
      \<and> (\<forall>c \<in> set cs. chunk_index (metadata c) < total_chunks (metadata c))"
    using chunk_indices_sequential [OF tok run] unfolding len up rep .
  with run cs have "?run = Inr cs
      \<and> map chunk_text cs = [''Hi.'', ''i.Aaaa. Bbbb.'', ''Aaaa. Bbbb.'']
      \<and> map (\<lambda>c. total_chunks (metadata c)) cs = [3, 3, 3]
      \<and> map (\<lambda>c. chunk_index (metadata c)) cs = [0, 1, 2]
      \<and> list_all (\<lambda>c. chunk_index (metadata c) < total_chunks (metadata c)) cs"
    unfolding list_all_iff by (intro conjI) (elim conjE, assumption)+
  then show ?thesis
    by (rule exI)
qed

section \<open>Properties of the embedding run\<close>

lemma embed_loop_append:
  "embed_loop client d n i (xs @ ys) acc st =
     (case embed_loop client d n i xs acc st of
        (Inl e, st') \<Rightarrow> (Inl e, st')
      | (Inr acc', st') \<Rightarrow> embed_loop client d n (i + length xs) ys acc' st')"
proof (induction xs arbitrary: i acc st)
  case Nil
  then show ?case by simp
next
  case (Cons x xs)
  obtain r st1 where r: "embed_with_retry client x st = (r, st1)"
    by (cases "embed_with_retry client x st") auto
  show ?case
  proof (cases r)
    case (Inl e)
    with r show ?thesis by simp
  next
    case (Inr be)
    have "i + 1 + length xs = i + length (x # xs)"
      by simp
    with r Inr Cons.IH [of "i + 1" "acc @ be"] show ?thesis
      by (simp split: prod.splits sum.splits)
  qed
qed

lemma create_batches_Nil: "create_batches enc bsize m [] = []"
  by (simp add: create_batches_def)

lemma generate_embeddings_at_batch:
  assumes "create_batches enc bsize m chunks = pre @ b # post"
    and "embed_loop client d (length (pre @ b # post)) 0 pre [] st0 = (Inr embedded, st)"
  shows "generate_embeddings enc bsize m client chunks d st0 =
     (case embed_with_retry client b st of
        (Inl e, st') \<Rightarrow> (Inl e, st')
      | (Inr batch_embedded, st') \<Rightarrow>
          embed_loop client d (length (pre @ b # post)) (length pre + 1) post
            (embedded @ batch_embedded)
            (if int (length pre) < int (length (pre @ b # post)) - 1 then sleep d st' else st'))"
proof -
  define n where "n = length (pre @ b # post)"
  have pre: "embed_loop client d n 0 pre [] st0 = (Inr embedded, st)"
    unfolding n_def by (rule assms(2))
  have "chunks \<noteq> []"
    using assms(1) by (auto simp: create_batches_Nil)
  then have "generate_embeddings enc bsize m client chunks d st0
      = embed_loop client d n 0 (pre @ b # post) [] st0"
    unfolding n_def by (simp add: generate_embeddings_def Let_def assms(1))
  also have "\<dots> = embed_loop client d n (length pre) (b # post) embedded st"
    by (simp add: embed_loop_append pre)
  also have "\<dots> = (case embed_with_retry client b st of
        (Inl e, st') \<Rightarrow> (Inl e, st')
      | (Inr batch_embedded, st') \<Rightarrow>
          embed_loop client d n (length pre + 1) post (embedded @ batch_embedded)
            (if int (length pre) < int n - 1 then sleep d st' else st'))"
    by simp
  finally show ?thesis
    unfolding n_def .
qed

lemma map_embeddings_mismatch:
  "j < length cs \<Longrightarrow> idx + j < length data
   \<Longrightarrow> length (data ! (idx + j)) \<noteq> embedding_dimension
   \<Longrightarrow> map_embeddings data idx cs = Inl ValueError"
proof (induction cs arbitrary: idx j)
  case Nil
  then show ?case by simp
next
  case (Cons c cs)
  show ?case
  proof (cases "length (data ! idx) \<noteq> embedding_dimension")
    case True
    with Cons.prems show ?thesis by simp
  next
    case False
    with Cons.prems obtain j' where j: "j = Suc j'"
      by (cases j) auto
    with Cons.prems have "map_embeddings data (idx + 1) cs = Inl ValueError"
      by (intro Cons.IH [of j']) simp_all
    with False Cons.prems show ?thesis by simp
  qed
qed

lemma embed_batch_Response:
  "client (calls st) (batch_texts b) = Response data \<Longrightarrow>
   embed_batch client b st
     = (map_embeddings data 0 (embedded_chunks b),
        \<lparr>calls = calls st + 1, trace = trace st @ [ApiCall (batch_texts b)]\<rparr>)"
  by (simp add: embed_batch_def call_api_def)

lemma embed_batch_Raise:
  "client (calls st) (batch_texts b) = Raise e \<Longrightarrow>
   embed_batch client b st
     = (Inl e, \<lparr>calls = calls st + 1, trace = trace st @ [ApiCall (batch_texts b)]\<rparr>)"
  by (simp add: embed_batch_def call_api_def)

lemma embed_with_retry_rate_limited:
  assumes "client (calls st) (batch_texts b) = Raise RateLimitError"
  shows "embed_with_retry client b st
     = embed_batch client b
         \<lparr>calls = calls st + 1,
          trace = trace st @ [ApiCall (batch_texts b), Sleep 5000]\<rparr>"
  using assms
  by (simp add: embed_with_retry_def embed_batch_def call_api_def sleep_def
      split: api_response.splits)

lemma embed_with_retry_other:
  assumes "client (calls st) (batch_texts b) = Raise e" "e \<noteq> RateLimitError"
  shows "embed_with_retry client b st
     = (Inl e, \<lparr>calls = calls st + 1, trace = trace st @ [ApiCall (batch_texts b)]\<rparr>)"
  using assms by (cases e) (simp_all add: embed_with_retry_def embed_batch_def call_api_def)

lemma embed_with_retry_Response:
  assumes "client (calls st) (batch_texts b) = Response data"
  shows "embed_with_retry client b st
     = (map_embeddings data 0 (embedded_chunks b),
        \<lparr>calls = calls st + 1, trace = trace st @ [ApiCall (batch_texts b)]\<rparr>)"
proof -
  have "map_embeddings data 0 cs \<noteq> Inl RateLimitError" for cs
  proof -
    have "map_embeddings data k cs \<noteq> Inl RateLimitError" for k
      by (induction cs arbitrary: k) (auto split: sum.splits)
    then show ?thesis .
  qed
  then show ?thesis
    using assms
    by (auto simp: embed_with_retry_def embed_batch_def call_api_def split: sum.splits error.splits)
qed

text \<open>
  C2. In a run of \<open>generate_embeddings\<close> that reaches a batch (the batches before it were
  embedded), if the response the provider returns for that batch, at the first request or at
  the retry after a rate limit, holds at the position of one of the chunks of the batch a
  vector whose length is not the embedding dimension, then the run raises \<open>ValueError\<close>:
  the caller gets no \<open>EmbeddedChunk\<close> at all, not those of the batches embedded before.
\<close>

theorem dimension_mismatch_aborts:
  assumes "create_batches enc bsize m chunks = pre @ b # post"
    and "embed_loop client d (length (pre @ b # post)) 0 pre [] st0 = (Inr embedded, st)"
    and "client (calls st) (batch_texts b) = Response data
         \<or> (client (calls st) (batch_texts b) = Raise RateLimitError
            \<and> client (calls st + 1) (batch_texts b) = Response data)"
    and "i < length (embedded_chunks b)" "i < length data"
    and "length (data ! i) \<noteq> embedding_dimension"
  shows "fst (generate_embeddings enc bsize m client chunks d st0) = Inl ValueError"
proof -
  have bad: "map_embeddings data 0 (embedded_chunks b) = Inl ValueError"
    using map_embeddings_mismatch [of i "embedded_chunks b" 0 data] assms(4-6) by simp
  have "fst (embed_with_retry client b st) = Inl ValueError"
    using assms(3)
  proof
    assume "client (calls st) (batch_texts b) = Response data"
    then show ?thesis
      by (simp add: embed_with_retry_Response bad)
  next
    assume r: "client (calls st) (batch_texts b) = Raise RateLimitError
        \<and> client (calls st + 1) (batch_texts b) = Response data"
    then show ?thesis
      by (simp add: embed_with_retry_rate_limited embed_batch_Response bad)
  qed
  then show ?thesis
    unfolding generate_embeddings_at_batch [OF assms(1,2)]
    by (cases "embed_with_retry client b st") simp
qed


theorem dimension_mismatch_aborts_witness:
  "create_batches None 1 3500 [\<lparr>chunk_text = ''abc'', metadata = make_chunk_metadata
           \<lparr>md_source_type = ''usc'', md_citation = ''1'', md_title = None, md_section = None,
            md_url = None, md_version_date = None, md_extra_fields = []\<rparr> 0 2,
         string_id = ''usc-1-chunk-0''\<rparr>, \<lparr>chunk_text = ''def'', metadata = make_chunk_metadata
           \<lparr>md_source_type = ''usc'', md_citation = ''1'', md_title = None, md_section = None,
            md_url = None, md_version_date = None, md_extra_fields = []\<rparr> 1 2,
         string_id = ''usc-1-chunk-1''\<rparr>]
     = [create_embedded_chunk_batch None [\<lparr>chunk_text = ''abc'', metadata = make_chunk_metadata
           \<lparr>md_source_type = ''usc'', md_citation = ''1'', md_title = None, md_section = None,
            md_url = None, md_version_date = None, md_extra_fields = []\<rparr> 0 2,
         string_id = ''usc-1-chunk-0''\<rparr>]] @ create_embedded_chunk_batch None [\<lparr>chunk_text = ''def'', metadata = make_chunk_metadata
           \<lparr>md_source_type = ''usc'', md_citation = ''1'', md_title = None, md_section = None,
            md_url = None, md_version_date = None, md_extra_fields = []\<rparr> 1 2,
         string_id = ''usc-1-chunk-1''\<rparr>] # []
   \<and> embed_loop
        (\<lambda>n texts. if n = 0 then Response [replicate 1536 0] else Response [[1, 2, 3]])
        100 2 0 [create_embedded_chunk_batch None [\<lparr>chunk_text = ''abc'', metadata = make_chunk_metadata
           \<lparr>md_source_type = ''usc'', md_citation = ''1'', md_title = None, md_section = None,
            md_url = None, md_version_date = None, md_extra_fields = []\<rparr> 0 2,
         string_id = ''usc-1-chunk-0''\<rparr>]] [] \<lparr>calls = 0, trace = []\<rparr>
     = (Inr [\<lparr>chunk = \<lparr>chunk_text = ''abc'', metadata = make_chunk_metadata
           \<lparr>md_source_type = ''usc'', md_citation = ''1'', md_title = None, md_section = None,
            md_url = None, md_version_date = None, md_extra_fields = []\<rparr> 0 2,
         string_id = ''usc-1-chunk-0''\<rparr>, embedding = replicate 1536 0,
              numeric_id = string_to_numeric_id ''usc-1-chunk-0'', tokens = 1\<rparr>],
        \<lparr>calls = 1, trace = [ApiCall [''abc''], Sleep 100]\<rparr>)
   \<and> length ([[1, 2, 3 :: real]] ! 0) \<noteq> embedding_dimension
   \<and> fst (generate_embeddings None 1 3500
        (\<lambda>n texts. if n = 0 then Response [replicate 1536 0] else Response [[1, 2, 3]])
        [\<lparr>chunk_text = ''abc'', metadata = make_chunk_metadata
           \<lparr>md_source_type = ''usc'', md_citation = ''1'', md_title = None, md_section = None,
            md_url = None, md_version_date = None, md_extra_fields = []\<rparr> 0 2,
         string_id = ''usc-1-chunk-0''\<rparr>, \<lparr>chunk_text = ''def'', metadata = make_chunk_metadata
           \<lparr>md_source_type = ''usc'', md_citation = ''1'', md_title = None, md_section = None,
            md_url = None, md_version_date = None, md_extra_fields = []\<rparr> 1 2,
         string_id = ''usc-1-chunk-1''\<rparr>] 100 \<lparr>calls = 0, trace = []\<rparr>) = Inl ValueError"
proof -
  let ?c0 = "\<lparr>chunk_text = ''abc'', metadata = make_chunk_metadata
           \<lparr>md_source_type = ''usc'', md_citation = ''1'', md_title = None, md_section = None,
            md_url = None, md_version_date = None, md_extra_fields = []\<rparr> 0 2,
         string_id = ''usc-1-chunk-0''\<rparr>"
  let ?c1 = "\<lparr>chunk_text = ''def'', metadata = make_chunk_metadata
           \<lparr>md_source_type = ''usc'', md_citation = ''1'', md_title = None, md_section = None,
            md_url = None, md_version_date = None, md_extra_fields = []\<rparr> 1 2,
         string_id = ''usc-1-chunk-1''\<rparr>"
  let ?client = "\<lambda>(n::nat) (texts::string list).
      if n = 0 then Response [replicate 1536 0] else Response [[1, 2, 3]]"
  let ?b0 = "create_embedded_chunk_batch None [?c0]"
  let ?b1 = "create_embedded_chunk_batch None [?c1]"
  let ?st0 = "\<lparr>calls = 0, trace = []\<rparr>"
  let ?e0 = "\<lparr>chunk = ?c0, embedding = replicate 1536 0,
      numeric_id = string_to_numeric_id ''usc-1-chunk-0'', tokens = 1\<rparr>"
  let ?st1 = "\<lparr>calls = 1, trace = [ApiCall [''abc''], Sleep 100]\<rparr>"
  have batches: "create_batches None 1 3500 [?c0, ?c1] = [?b0] @ ?b1 # []"
    by (simp add: create_batches_def batch_step_def truncate_chunk_def count_tokens_def Let_def)
  have chunks0: "embedded_chunks ?b0
      = [\<lparr>chunk = ?c0, embedding = [], numeric_id = 0, tokens = 1\<rparr>]"
    by (simp add: create_embedded_chunk_batch_def count_tokens_def)
  have vec: "map_embeddings [replicate 1536 0] 0 (embedded_chunks ?b0) = Inr [?e0]"
    unfolding chunks0 by (simp add: embedding_dimension_def)
  have texts0: "batch_texts ?b0 = [''abc'']"
    by (simp add: batch_texts_def create_embedded_chunk_batch_def)
  have retry0: "embed_with_retry ?client ?b0 ?st0
      = (Inr [?e0], \<lparr>calls = 1, trace = [ApiCall [''abc'']]\<rparr>)"
    using embed_with_retry_Response [of ?client ?st0 ?b0 "[replicate 1536 0]"]
    unfolding vec texts0 by simp
  have loop: "embed_loop ?client 100 2 0 [?b0] [] ?st0 = (Inr [?e0], ?st1)"
    unfolding embed_loop.simps retry0 by (simp add: sleep_def)
  have len: "length ([?b0] @ ?b1 # []) = 2"
    by simp
  have reach: "embed_loop ?client 100 (length ([?b0] @ ?b1 # [])) 0 [?b0] [] ?st0
      = (Inr [?e0], ?st1)"
    unfolding len by (rule loop)
  have resp: "?client (calls ?st1) (batch_texts ?b1) = Response [[1, 2, 3]]
      \<or> (?client (calls ?st1) (batch_texts ?b1) = Raise RateLimitError
          \<and> ?client (calls ?st1 + 1) (batch_texts ?b1) = Response [[1, 2, 3]])"
    by simp
  have i: "0 < length (embedded_chunks ?b1)" "(0::nat) < length [[1, 2, 3 :: real]]"
    by (simp_all add: create_embedded_chunk_batch_def)
  have bad: "length ([[1, 2, 3 :: real]] ! 0) \<noteq> embedding_dimension"
    by (simp add: embedding_dimension_def)
  show ?thesis
    using batches loop bad dimension_mismatch_aborts [OF batches reach resp i bad]
    by (intro conjI)
qed

text \<open>
  C9. In a run of \<open>generate_embeddings\<close> that reaches a batch: when the first request for
  the batch raises \<open>RateLimitError\<close>, the run sleeps 5 seconds and sends the request for
  that batch once more; when that second request raises too (a rate limit again, or anything
  else), the error is the result of the run, and the run made exactly these two requests for
  the batch and no request after them; when the second request returns, the run goes on with
  its response; and when the first request raises anything other than \<open>RateLimitError\<close>,
  that error is the result of the run, with no sleep and no other request after it.
\<close>

theorem rate_limit_retry_once:
  assumes "create_batches enc bsize m chunks = pre @ b # post"
    and "embed_loop client d (length (pre @ b # post)) 0 pre [] st0 = (Inr embedded, st)"
  shows "(client (calls st) (batch_texts b) = Raise RateLimitError
          \<and> client (calls st + 1) (batch_texts b) = Raise e \<longrightarrow>
        generate_embeddings enc bsize m client chunks d st0
          = (Inl e, \<lparr>calls = calls st + 2,
                     trace = trace st @ [ApiCall (batch_texts b), Sleep 5000,
                                         ApiCall (batch_texts b)]\<rparr>))
    \<and> (client (calls st) (batch_texts b) = Raise RateLimitError
          \<and> client (calls st + 1) (batch_texts b) = Response data \<longrightarrow>
        generate_embeddings enc bsize m client chunks d st0
          = (case map_embeddings data 0 (embedded_chunks b) of
               Inl e2 \<Rightarrow>
                 (Inl e2, \<lparr>calls = calls st + 2,
                           trace = trace st @ [ApiCall (batch_texts b), Sleep 5000,
                                               ApiCall (batch_texts b)]\<rparr>)
             | Inr batch_embedded \<Rightarrow>
                 embed_loop client d (length (pre @ b # post)) (length pre + 1) post
                   (embedded @ batch_embedded)
                   (if int (length pre) < int (length (pre @ b # post)) - 1
                    then sleep d \<lparr>calls = calls st + 2,
                           trace = trace st @ [ApiCall (batch_texts b), Sleep 5000,
                                               ApiCall (batch_texts b)]\<rparr>
                    else \<lparr>calls = calls st + 2,
                           trace = trace st @ [ApiCall (batch_texts b), Sleep 5000,
                                               ApiCall (batch_texts b)]\<rparr>)))
    \<and> (client (calls st) (batch_texts b) = Raise e1 \<and> e1 \<noteq> RateLimitError \<longrightarrow>
        generate_embeddings enc bsize m client chunks d st0
          = (Inl e1, \<lparr>calls = calls st + 1,
                      trace = trace st @ [ApiCall (batch_texts b)]\<rparr>))"
proof (intro conjI impI)
  let ?st1 = "\<lparr>calls = calls st + 1, trace = trace st @ [ApiCall (batch_texts b), Sleep 5000]\<rparr>"
  let ?st2 = "\<lparr>calls = calls st + 2,
      trace = trace st @ [ApiCall (batch_texts b), Sleep 5000, ApiCall (batch_texts b)]\<rparr>"
  note at = generate_embeddings_at_batch [OF assms]
  {
    assume a: "client (calls st) (batch_texts b) = Raise RateLimitError
        \<and> client (calls st + 1) (batch_texts b) = Raise e"
    then have "client (calls ?st1) (batch_texts b) = Raise e"
      by simp
    then have "embed_batch client b ?st1 = (Inl e, ?st2)"
      by (simp add: embed_batch_def call_api_def)
    with a have "embed_with_retry client b st = (Inl e, ?st2)"
      by (simp add: embed_with_retry_rate_limited)
    then show "generate_embeddings enc bsize m client chunks d st0 = (Inl e, ?st2)"
      unfolding at by simp
  }
  {
    assume a: "client (calls st) (batch_texts b) = Raise RateLimitError
        \<and> client (calls st + 1) (batch_texts b) = Response data"
    then have "client (calls ?st1) (batch_texts b) = Response data"
      by simp
    then have "embed_batch client b ?st1 = (map_embeddings data 0 (embedded_chunks b), ?st2)"
      by (simp add: embed_batch_def call_api_def)
    with a have "embed_with_retry client b st = (map_embeddings data 0 (embedded_chunks b), ?st2)"
      by (simp add: embed_with_retry_rate_limited)
    then show "generate_embeddings enc bsize m client chunks d st0
          = (case map_embeddings data 0 (embedded_chunks b) of
               Inl e2 \<Rightarrow> (Inl e2, ?st2)
             | Inr batch_embedded \<Rightarrow>
                 embed_loop client d (length (pre @ b # post)) (length pre + 1) post
                   (embedded @ batch_embedded)
                   (if int (length pre) < int (length (pre @ b # post)) - 1
                    then sleep d ?st2 else ?st2))"
      unfolding at by (cases "map_embeddings data 0 (embedded_chunks b)") simp_all
  }
  {
    assume a: "client (calls st) (batch_texts b) = Raise e1 \<and> e1 \<noteq> RateLimitError"
    then have "embed_with_retry client b st
        = (Inl e1, \<lparr>calls = calls st + 1, trace = trace st @ [ApiCall (batch_texts b)]\<rparr>)"
      by (simp add: embed_with_retry_other)
    then show "generate_embeddings enc bsize m client chunks d st0
        = (Inl e1, \<lparr>calls = calls st + 1, trace = trace st @ [ApiCall (batch_texts b)]\<rparr>)"
      unfolding at by simp
  }
qed


theorem rate_limit_retry_once_witness:
  "generate_embeddings None 40 3500 (\<lambda>n texts. Raise RateLimitError) [\<lparr>chunk_text = ''abc'', metadata = make_chunk_metadata
           \<lparr>md_source_type = ''usc'', md_citation = ''1'', md_title = None, md_section = None,
            md_url = None, md_version_date = None, md_extra_fields = []\<rparr> 0 1,
         string_id = ''usc-1-chunk-0''\<rparr>] 100
       \<lparr>calls = 0, trace = []\<rparr>
     = (Inl RateLimitError,
        \<lparr>calls = 2, trace = [ApiCall [''abc''], Sleep 5000, ApiCall [''abc'']]\<rparr>)
   \<and> generate_embeddings None 40 3500
       (\<lambda>n texts. if n = 0 then Raise RateLimitError else Response [replicate 1536 0]) [\<lparr>chunk_text = ''abc'', metadata = make_chunk_metadata
           \<lparr>md_source_type = ''usc'', md_citation = ''1'', md_title = None, md_section = None,
            md_url = None, md_version_date = None, md_extra_fields = []\<rparr> 0 1,
         string_id = ''usc-1-chunk-0''\<rparr>] 100
       \<lparr>calls = 0, trace = []\<rparr>
     = (Inr [\<lparr>chunk = \<lparr>chunk_text = ''abc'', metadata = make_chunk_metadata
           \<lparr>md_source_type = ''usc'', md_citation = ''1'', md_title = None, md_section = None,
            md_url = None, md_version_date = None, md_extra_fields = []\<rparr> 0 1,
         string_id = ''usc-1-chunk-0''\<rparr>, embedding = replicate 1536 0,
              numeric_id = string_to_numeric_id ''usc-1-chunk-0'', tokens = 1\<rparr>],
        \<lparr>calls = 2, trace = [ApiCall [''abc''], Sleep 5000, ApiCall [''abc'']]\<rparr>)
   \<and> generate_embeddings None 40 3500 (\<lambda>n texts. Raise APIError) [\<lparr>chunk_text = ''abc'', metadata = make_chunk_metadata
           \<lparr>md_source_type = ''usc'', md_citation = ''1'', md_title = None, md_section = None,
            md_url = None, md_version_date = None, md_extra_fields = []\<rparr> 0 1,
         string_id = ''usc-1-chunk-0''\<rparr>] 100
       \<lparr>calls = 0, trace = []\<rparr>
     = (Inl APIError, \<lparr>calls = 1, trace = [ApiCall [''abc'']]\<rparr>)"
proof -
  let ?c0 = "\<lparr>chunk_text = ''abc'', metadata = make_chunk_metadata
           \<lparr>md_source_type = ''usc'', md_citation = ''1'', md_title = None, md_section = None,
            md_url = None, md_version_date = None, md_extra_fields = []\<rparr> 0 1,
         string_id = ''usc-1-chunk-0''\<rparr>"
  let ?b = "create_embedded_chunk_batch None [?c0]"
  let ?st0 = "\<lparr>calls = 0, trace = []\<rparr>"
  let ?limited = "\<lambda>(n::nat) (texts::string list). Raise RateLimitError"
  let ?recovers = "\<lambda>(n::nat) (texts::string list).
      if n = 0 then Raise RateLimitError else Response [replicate 1536 0]"
  let ?fails = "\<lambda>(n::nat) (texts::string list). Raise APIError"
  have batches: "create_batches None 40 3500 [?c0] = [] @ ?b # []"
    by (simp add: create_batches_def batch_step_def truncate_chunk_def count_tokens_def Let_def)
  have reach: "embed_loop client 100 (length ([] @ ?b # [])) 0 [] [] ?st0 = (Inr [], ?st0)"
    for client
    by simp
  have texts: "batch_texts ?b = [''abc'']"
    by (simp add: batch_texts_def create_embedded_chunk_batch_def)
  have chunks: "embedded_chunks ?b
      = [\<lparr>chunk = ?c0, embedding = [], numeric_id = 0, tokens = 1\<rparr>]"
    by (simp add: create_embedded_chunk_batch_def count_tokens_def)
  have vec: "map_embeddings [replicate 1536 0] 0 (embedded_chunks ?b)
      = Inr [\<lparr>chunk = ?c0, embedding = replicate 1536 0,
              numeric_id = string_to_numeric_id ''usc-1-chunk-0'', tokens = 1\<rparr>]"
    unfolding chunks by (simp add: embedding_dimension_def)
  have l: "?limited (calls ?st0) (batch_texts ?b) = Raise RateLimitError
      \<and> ?limited (calls ?st0 + 1) (batch_texts ?b) = Raise RateLimitError"
    by simp
  have r: "?recovers (calls ?st0) (batch_texts ?b) = Raise RateLimitError
      \<and> ?recovers (calls ?st0 + 1) (batch_texts ?b) = Response [replicate 1536 0]"
    by simp
  have f: "?fails (calls ?st0) (batch_texts ?b) = Raise APIError \<and> APIError \<noteq> RateLimitError"
    by simp
  have "generate_embeddings None 40 3500 ?limited [?c0] 100 ?st0
     = (Inl RateLimitError,
        \<lparr>calls = 2, trace = [ApiCall [''abc''], Sleep 5000, ApiCall [''abc'']]\<rparr>)"
    using rate_limit_retry_once [where client = ?limited and e = RateLimitError,
        OF batches reach, THEN conjunct1, rule_format, OF l]
    unfolding texts by simp
  moreover have "generate_embeddings None 40 3500 ?recovers [?c0] 100 ?st0
     = (Inr [\<lparr>chunk = ?c0, embedding = replicate 1536 0,
              numeric_id = string_to_numeric_id ''usc-1-chunk-0'', tokens = 1\<rparr>],
        \<lparr>calls = 2, trace = [ApiCall [''abc''], Sleep 5000, ApiCall [''abc'']]\<rparr>)"
    using rate_limit_retry_once [where client = ?recovers and data = "[replicate 1536 0]",
        OF batches reach, THEN conjunct2, THEN conjunct1, rule_format, OF r]
    unfolding texts vec by simp
  moreover have "generate_embeddings None 40 3500 ?fails [?c0] 100 ?st0
     = (Inl APIError, \<lparr>calls = 1, trace = [ApiCall [''abc'']]\<rparr>)"
    using rate_limit_retry_once [where client = ?fails and ?e1.0 = APIError,
        OF batches reach, THEN conjunct2, THEN conjunct2, rule_format, OF f]
    unfolding texts by simp
  ultimately show ?thesis
    by (intro conjI)
qed

end
